theory Spec2Isabelle
  imports Main "HOL-Library.Word"
begin

unbundle bit_operations_syntax

section \<open>Machine types\<close>

text \<open>
  The firmware runs on an ESP32: \<open>uint8_t\<close>, \<open>uint16_t\<close> and \<open>uint32_t\<close> are words of
  that width, \<open>unsigned long\<close> is 32 bits wide, and \<open>int\<close> is a 32-bit two's complement
  integer. The Arduino call \<open>millis()\<close> reads a free-running 32-bit millisecond counter;
  every function that calls it takes the value read as an argument \<open>now\<close>.
\<close>

type_synonym u8 = "8 word"
type_synonym u16 = "16 word"
type_synonym u32 = "32 word"

section \<open>TimeManager: the clock and calendar engine (TimeManager.h, TimeManager.cpp)\<close>

text \<open>\<open>struct ClockTime\<close>; the fields carry the prefix \<open>ct_\<close>.\<close>

record ClockTime =
  ct_year :: u16
  ct_month :: u8
  ct_day :: u8
  ct_hour :: u8
  ct_minute :: u8
  ct_second :: u8

text \<open>
  The private members of \<open>class TimeManager\<close>: \<open>_year\<close> is \<open>tm_year\<close> and so on;
  \<open>_lastTickMillis\<close>, \<open>_syncMillis\<close>, \<open>_timeSet\<close> and \<open>_accumMillis\<close> keep their names
  without the underscore.
\<close>

record TimeManager =
  tm_year :: u16
  tm_month :: u8
  tm_day :: u8
  tm_hour :: u8
  tm_minute :: u8
  tm_second :: u8
  lastTickMillis :: u32
  syncMillis :: u32
  timeSet :: bool
  accumMillis :: u16

text \<open>The constructor \<open>TimeManager::TimeManager()\<close>.\<close>

definition TimeManager_new :: TimeManager where
  "TimeManager_new =
     \<lparr>tm_year = 2000, tm_month = 1, tm_day = 1, tm_hour = 0, tm_minute = 0, tm_second = 0,
      lastTickMillis = 0, syncMillis = 0, timeSet = False, accumMillis = 0\<rparr>"

subsection \<open>Static calendar functions\<close>

definition DAYS_IN_MONTH :: "u8 list" where
  "DAYS_IN_MONTH = [31, 28, 31, 30, 31, 30, 31, 31, 30, 31, 30, 31]"

definition isLeapYear :: "u16 \<Rightarrow> bool" where
  "isLeapYear year \<longleftrightarrow> (year mod 4 = 0 \<and> year mod 100 \<noteq> 0) \<or> year mod 400 = 0"

definition daysInMonth :: "u16 \<Rightarrow> u8 \<Rightarrow> u8" where
  "daysInMonth year month =
     (if month < 1 \<or> month > 12 then 30
      else let days = DAYS_IN_MONTH ! (unat month - 1)
           in if month = 2 \<and> isLeapYear year then 29 else days)"

text \<open>
  C's \<open>%\<close> on \<open>int\<close> truncates towards zero: the remainder takes the sign of the dividend.
\<close>

definition c_rem :: "int \<Rightarrow> int \<Rightarrow> int" where
  "c_rem a b = (if a < 0 then - ((- a) mod \<bar>b\<bar>) else a mod \<bar>b\<bar>)"

text \<open>
  \<open>TimeManager::calculateDayOfWeek\<close>, Zeller's congruence. \<open>month\<close> and \<open>year\<close> are
  adjusted in their own widths, then everything is \<open>int\<close> arithmetic (no term comes near
  the 32-bit range: \<open>year\<close> is at most 65535).
\<close>

definition calculateDayOfWeek :: "u16 \<Rightarrow> u8 \<Rightarrow> u8 \<Rightarrow> int" where
  "calculateDayOfWeek year month day =
     (let (month', year') = (if month < 3 then (month + 12, year - 1) else (month, year));
          q = uint day;
          m = uint month';
          k = uint year' mod 100;
          j = uint year' div 100;
          h = c_rem (q + (13 * (m + 1)) div 5 + k + k div 4 + j div 4 - 2 * j) 7;
          dow = c_rem (h + 6) 7
      in dow)"

subsection \<open>Setting the time\<close>

text \<open>\<open>TimeManager::setTime\<close>; \<open>now\<close> is the value \<open>millis()\<close> returns.\<close>

definition setTime :: "u32 \<Rightarrow> u16 \<Rightarrow> u8 \<Rightarrow> u8 \<Rightarrow> u8 \<Rightarrow> u8 \<Rightarrow> u8 \<Rightarrow> TimeManager \<Rightarrow> TimeManager" where
  "setTime now year month day hour minute second s =
     s\<lparr>tm_year := year, tm_month := month, tm_day := day,
       tm_hour := hour, tm_minute := minute, tm_second := second,
       lastTickMillis := now, syncMillis := now, accumMillis := 0, timeSet := True\<rparr>"

definition secondsInYear :: "u16 \<Rightarrow> u32" where
  "secondsInYear year = (if isLeapYear year then 366 * 86400 else 365 * 86400)"

text \<open>The first loop of \<open>setUnixTime\<close>: \<open>while (true) { ... }\<close> counting years.\<close>

function count_years :: "u32 \<Rightarrow> u16 \<Rightarrow> u32 \<times> u16" where
  "count_years seconds year =
     (if seconds < secondsInYear year then (seconds, year)
      else count_years (seconds - secondsInYear year) (year + 1))"
  by pat_completeness auto
termination
proof (relation "measure (\<lambda>(seconds, year). unat seconds)")
  show "wf (measure (\<lambda>(seconds, year). unat seconds))" by simp
next
  fix seconds :: u32 and year :: u16
  assume a: "\<not> seconds < secondsInYear year"
  have pos: "0 < unat (secondsInYear year)"
    by (simp add: secondsInYear_def)
  from a have le: "secondsInYear year \<le> seconds" by simp
  then have "unat (seconds - secondsInYear year) = unat seconds - unat (secondsInYear year)"
    by (rule unat_sub)
  moreover from le have "unat (secondsInYear year) \<le> unat seconds"
    by (simp add: word_le_nat_alt)
  ultimately show "((seconds - secondsInYear year, year + 1), (seconds, year))
      \<in> measure (\<lambda>(seconds, year). unat seconds)"
    using pos by simp
qed

declare count_years.simps [simp del]

definition secondsInMonth :: "u16 \<Rightarrow> u8 \<Rightarrow> u32" where
  "secondsInMonth year month = ucast (daysInMonth year month) * 86400"

text \<open>The second loop of \<open>setUnixTime\<close>: \<open>while (month <= 12) { ... }\<close>.\<close>

function count_months :: "u16 \<Rightarrow> u32 \<Rightarrow> u8 \<Rightarrow> u32 \<times> u8" where
  "count_months year seconds month =
     (if month \<le> 12
      then (if seconds < secondsInMonth year month then (seconds, month)
            else count_months year (seconds - secondsInMonth year month) (month + 1))
      else (seconds, month))"
  by pat_completeness auto
termination
proof (relation "measure (\<lambda>(year, seconds, month). 13 - unat month)")
  show "wf (measure (\<lambda>(year, seconds, month). 13 - unat month))" by simp
next
  fix year :: u16 and seconds :: u32 and month :: u8
  assume "month \<le> 12"
  then have "unat month \<le> 12" by (simp add: word_le_nat_alt)
  then have "unat (month + 1) = unat month + 1"
    by (simp add: unat_word_ariths)
  with \<open>unat month \<le> 12\<close>
  show "((year, seconds - secondsInMonth year month, month + 1), (year, seconds, month))
      \<in> measure (\<lambda>(year, seconds, month). 13 - unat month)"
    by simp
qed

declare count_months.simps [simp del]

text \<open>\<open>TimeManager::setUnixTime\<close>.\<close>

definition setUnixTime :: "u32 \<Rightarrow> u32 \<Rightarrow> TimeManager \<Rightarrow> TimeManager" where
  "setUnixTime now unixTime s =
     (let (seconds1, year) = count_years unixTime 1970;
          (seconds2, month) = count_months year seconds1 1;
          day = (ucast (1 + seconds2 div 86400) :: u8);
          seconds3 = seconds2 mod 86400;
          hour = (ucast (seconds3 div 3600) :: u8);
          seconds4 = seconds3 mod 3600;
          minute = (ucast (seconds4 div 60) :: u8);
          second = (ucast (seconds4 mod 60) :: u8)
      in setTime now year month day hour minute second s)"

subsection \<open>Reading the time\<close>

text \<open>
  The read operations are non-\<open>const\<close> member functions: each is modelled as returning
  its result together with the object's state after the call, built the way the body
  builds it.
\<close>

definition getUTCTime :: "TimeManager \<Rightarrow> ClockTime \<times> TimeManager" where
  "getUTCTime s =
     (\<lparr>ct_year = tm_year s, ct_month = tm_month s, ct_day = tm_day s,
       ct_hour = tm_hour s, ct_minute = tm_minute s, ct_second = tm_second s\<rparr>, s)"

text \<open>One pass of the body of \<open>while (newHour < 0)\<close>: the local copy goes back one day.\<close>

definition day_back :: "ClockTime \<Rightarrow> ClockTime" where
  "day_back dt =
     (if ct_day dt > 1 then dt\<lparr>ct_day := ct_day dt - 1\<rparr>
      else let dt1 = (if ct_month dt > 1 then dt\<lparr>ct_month := ct_month dt - 1\<rparr>
                      else dt\<lparr>ct_month := 12, ct_year := ct_year dt - 1\<rparr>)
           in dt1\<lparr>ct_day := daysInMonth (ct_year dt1) (ct_month dt1)\<rparr>)"

text \<open>One pass of the body of \<open>while (newHour >= 24)\<close>: the local copy goes on one day.\<close>

definition day_forward :: "ClockTime \<Rightarrow> ClockTime" where
  "day_forward dt =
     (if ct_day dt < daysInMonth (ct_year dt) (ct_month dt) then dt\<lparr>ct_day := ct_day dt + 1\<rparr>
      else let dt1 = dt\<lparr>ct_day := 1\<rparr>
           in if ct_month dt1 < 12 then dt1\<lparr>ct_month := ct_month dt1 + 1\<rparr>
              else dt1\<lparr>ct_month := 1, ct_year := ct_year dt1 + 1\<rparr>)"

text \<open>
  \<open>newHour\<close> is an \<open>int16_t\<close> that stays between -128 and 382 (an hour byte plus a
  signed byte), so it is an \<open>int\<close> here.
\<close>

function roll_back :: "int \<Rightarrow> ClockTime \<Rightarrow> int \<times> ClockTime" where
  "roll_back newHour dt =
     (if newHour < 0 then roll_back (newHour + 24) (day_back dt) else (newHour, dt))"
  by pat_completeness auto
termination
  by (relation "measure (\<lambda>(newHour, dt). nat (- newHour))") auto

declare roll_back.simps [simp del]

function roll_forward :: "int \<Rightarrow> ClockTime \<Rightarrow> int \<times> ClockTime" where
  "roll_forward newHour dt =
     (if newHour \<ge> 24 then roll_forward (newHour - 24) (day_forward dt) else (newHour, dt))"
  by pat_completeness auto
termination
  by (relation "measure (\<lambda>(newHour, dt). nat newHour)") auto

declare roll_forward.simps [simp del]

text \<open>
  \<open>TimeManager::getLocalTime\<close>. \<open>utcOffset\<close> and \<open>totalOffset\<close> are \<open>int8_t\<close>: a byte
  read as two's complement (\<open>sint\<close>); \<open>totalOffset += 1\<close> wraps in the byte.
\<close>

definition getLocalTime :: "u8 \<Rightarrow> bool \<Rightarrow> TimeManager \<Rightarrow> ClockTime \<times> TimeManager" where
  "getLocalTime utcOffset dst s =
     (let (dt, s1) = getUTCTime s;
          totalOffset = (if dst then utcOffset + 1 else utcOffset);
          newHour = uint (ct_hour dt) + sint totalOffset;
          (newHour1, dt1) = roll_back newHour dt;
          (newHour2, dt2) = roll_forward newHour1 dt1
      in (dt2\<lparr>ct_hour := word_of_int newHour2\<rparr>, s1))"

text \<open>The loop \<open>for (uint16_t y = 1970; y < _year; y++)\<close> of \<open>getUnixTime\<close>.\<close>

function add_years :: "u16 \<Rightarrow> u16 \<Rightarrow> u32 \<Rightarrow> u32" where
  "add_years y year unixTime =
     (if y < year then add_years (y + 1) year (unixTime + secondsInYear y) else unixTime)"
  by pat_completeness auto
termination
proof (relation "measure (\<lambda>(y, year, unixTime). unat year - unat y)")
  show "wf (measure (\<lambda>(y, year, unixTime). unat year - unat y))" by simp
next
  fix y year :: u16 and unixTime :: u32
  assume "y < year"
  then have lt: "unat y < unat year" by (simp add: word_less_nat_alt)
  moreover have "unat year < 2 ^ LENGTH(16)" by (rule unsigned_less)
  ultimately have "unat (y + 1) = unat y + 1"
    by (simp add: unat_word_ariths)
  with lt show "((y + 1, year, unixTime + secondsInYear y), (y, year, unixTime))
      \<in> measure (\<lambda>(y, year, unixTime). unat year - unat y)"
    by simp
qed

declare add_years.simps [simp del]

text \<open>The loop \<open>for (uint8_t m = 1; m < _month; m++)\<close> of \<open>getUnixTime\<close>.\<close>

function add_months :: "u16 \<Rightarrow> u8 \<Rightarrow> u8 \<Rightarrow> u32 \<Rightarrow> u32" where
  "add_months year m month unixTime =
     (if m < month then add_months year (m + 1) month (unixTime + secondsInMonth year m)
      else unixTime)"
  by pat_completeness auto
termination
proof (relation "measure (\<lambda>(year, m, month, unixTime). unat month - unat m)")
  show "wf (measure (\<lambda>(year, m, month, unixTime). unat month - unat m))" by simp
next
  fix year :: u16 and m month :: u8 and unixTime :: u32
  assume "m < month"
  then have lt: "unat m < unat month" by (simp add: word_less_nat_alt)
  moreover have "unat month < 2 ^ LENGTH(8)" by (rule unsigned_less)
  ultimately have "unat (m + 1) = unat m + 1"
    by (simp add: unat_word_ariths)
  with lt show "((year, m + 1, month, unixTime + secondsInMonth year m), (year, m, month, unixTime))
      \<in> measure (\<lambda>(year, m, month, unixTime). unat month - unat m)"
    by simp
qed

declare add_months.simps [simp del]

text \<open>
  \<open>TimeManager::getUnixTime\<close>. \<open>(uint32_t)(_day - 1)\<close> converts the \<open>int\<close> value
  \<open>_day - 1\<close> to 32 bits, which is the 32-bit subtraction on the widened byte.
\<close>

definition getUnixTime :: "TimeManager \<Rightarrow> u32 \<times> TimeManager" where
  "getUnixTime s =
     (let unixTime1 = add_years 1970 (tm_year s) 0;
          unixTime2 = add_months (tm_year s) 1 (tm_month s) unixTime1;
          unixTime3 = unixTime2 + (ucast (tm_day s) - 1) * 86400;
          unixTime4 = unixTime3 + ucast (tm_hour s) * 3600;
          unixTime5 = unixTime4 + ucast (tm_minute s) * 60;
          unixTime6 = unixTime5 + ucast (tm_second s)
      in (unixTime6, s))"

text \<open>
  \<open>TimeManager::getMilliseconds\<close>: the sum \<open>_accumMillis + elapsed\<close> is an
  \<open>unsigned long\<close>, reduced modulo 1000 and converted to \<open>uint16_t\<close>.
\<close>

definition getMilliseconds :: "u32 \<Rightarrow> TimeManager \<Rightarrow> u16 \<times> TimeManager" where
  "getMilliseconds now s =
     (if \<not> timeSet s then (0, s)
      else let elapsed = now - lastTickMillis s
           in (ucast ((ucast (accumMillis s) + elapsed) mod 1000), s))"

definition isTimeSet :: "TimeManager \<Rightarrow> bool \<times> TimeManager" where
  "isTimeSet s = (timeSet s, s)"

definition getSecondsSinceSync :: "u32 \<Rightarrow> TimeManager \<Rightarrow> u32 \<times> TimeManager" where
  "getSecondsSinceSync now s =
     (if \<not> timeSet s then (0, s) else ((now - syncMillis s) div 1000, s))"

subsection \<open>Advancing the time\<close>

text \<open>\<open>TimeManager::incrementSecond\<close>: every \<open>++\<close> is on a byte or on the 16-bit year.\<close>

definition incrementSecond :: "TimeManager \<Rightarrow> TimeManager" where
  "incrementSecond s =
     (let s1 = s\<lparr>tm_second := tm_second s + 1\<rparr>
      in if tm_second s1 \<ge> 60 then
           (let s2 = s1\<lparr>tm_second := 0, tm_minute := tm_minute s1 + 1\<rparr>
            in if tm_minute s2 \<ge> 60 then
                 (let s3 = s2\<lparr>tm_minute := 0, tm_hour := tm_hour s2 + 1\<rparr>
                  in if tm_hour s3 \<ge> 24 then
                       (let s4 = s3\<lparr>tm_hour := 0, tm_day := tm_day s3 + 1\<rparr>
                        in if tm_day s4 > daysInMonth (tm_year s4) (tm_month s4) then
                             (let s5 = s4\<lparr>tm_day := 1, tm_month := tm_month s4 + 1\<rparr>
                              in if tm_month s5 > 12
                                 then s5\<lparr>tm_month := 1, tm_year := tm_year s5 + 1\<rparr>
                                 else s5)
                           else s4)
                     else s3)
               else s2)
         else s1)"

text \<open>The loop \<open>while (_accumMillis >= 1000)\<close> of \<open>tick\<close>.\<close>

function drain_accum :: "TimeManager \<Rightarrow> TimeManager" where
  "drain_accum s =
     (if accumMillis s \<ge> 1000
      then drain_accum (incrementSecond (s\<lparr>accumMillis := accumMillis s - 1000\<rparr>))
      else s)"
  by pat_completeness auto

termination
proof (relation "measure (\<lambda>s. unat (accumMillis s))")
  show "wf (measure (\<lambda>s. unat (accumMillis s)))" by simp
next
  fix s :: TimeManager
  assume le: "1000 \<le> accumMillis s"
  have keep: "accumMillis (incrementSecond (s\<lparr>accumMillis := accumMillis s - 1000\<rparr>))
      = accumMillis s - 1000"
    by (simp add: incrementSecond_def Let_def)
  from le have "unat (accumMillis s - 1000) = unat (accumMillis s) - unat (1000 :: u16)"
    by (rule unat_sub)
  moreover from le have "unat (1000 :: u16) \<le> unat (accumMillis s)"
    by (simp only: word_le_nat_alt)
  ultimately show "(incrementSecond (s\<lparr>accumMillis := accumMillis s - 1000\<rparr>), s)
      \<in> measure (\<lambda>s. unat (accumMillis s))"
    using keep by simp
qed

declare drain_accum.simps [simp del]

text \<open>
  \<open>TimeManager::tick\<close>. \<open>_accumMillis += elapsed\<close> adds in \<open>unsigned long\<close> and stores
  the low 16 bits.
\<close>

definition tick :: "u32 \<Rightarrow> TimeManager \<Rightarrow> TimeManager" where
  "tick now s =
     (if \<not> timeSet s then s
      else let currentMillis = now;
               elapsed = currentMillis - lastTickMillis s;
               s1 = s\<lparr>accumMillis := ucast ((ucast (accumMillis s) :: u32) + elapsed),
                      lastTickMillis := currentMillis\<rparr>
           in drain_accum s1)"

section \<open>NTPServer: the UDP responder (NTPServer.h, NTPServer.cpp)\<close>

subsection \<open>The UDP socket\<close>

text \<open>
  Modelled from the spec: the socket is the platform's \<open>WiFiUDP\<close> object, which is not
  part of the repository. The model keeps what \<open>handleClient\<close> uses: the datagrams that
  wait on the port ("reads one pending datagram if present"), the unread bytes of the
  datagram that \<open>parsePacket\<close> took with its sender, and the datagrams sent.
\<close>

type_synonym remote = "u32 \<times> u16"

record UDP =
  pending :: "(remote \<times> u8 list) list"
  rx_buf :: "u8 list"
  rx_remote :: remote
  sent :: "(remote \<times> u8 list) list"

text \<open>\<open>parsePacket()\<close>: takes the next pending datagram, returns its size, 0 when none waits.\<close>

definition udp_parsePacket :: "UDP \<Rightarrow> int \<times> UDP" where
  "udp_parsePacket u =
     (case pending u of
        [] \<Rightarrow> (0, u)
      | (r, d) # ps \<Rightarrow> (int (length d), u\<lparr>pending := ps, rx_buf := d, rx_remote := r\<rparr>))"

text \<open>\<open>read(buf, n)\<close>: moves up to \<open>n\<close> unread bytes of the current datagram to the caller.\<close>

definition udp_read :: "nat \<Rightarrow> UDP \<Rightarrow> u8 list \<times> UDP" where
  "udp_read n u = (take n (rx_buf u), u\<lparr>rx_buf := drop n (rx_buf u)\<rparr>)"

text \<open>\<open>beginPacket(ip, port); write(buf, n); endPacket()\<close>: one datagram goes out.\<close>

definition udp_send :: "remote \<Rightarrow> u8 list \<Rightarrow> UDP \<Rightarrow> UDP" where
  "udp_send r bytes u = u\<lparr>sent := sent u @ [(r, bytes)]\<rparr>"

subsection \<open>The server\<close>

text \<open>
  The members of \<open>class NTPServer\<close>; \<open>_timeManager\<close> points to the application's one
  \<open>TimeManager\<close>, which the functions below take and return beside the server.
\<close>

record NTPServer =
  udp :: UDP
  running :: bool
  requestCount :: u32
  stratum :: u8
  refId :: "u8 list"

definition NTP_PACKET_SIZE :: nat where
  "NTP_PACKET_SIZE = 48"

definition NTP_EPOCH_OFFSET :: u32 where
  "NTP_EPOCH_OFFSET = 2208988800"

definition unixToNTP :: "u32 \<Rightarrow> u32" where
  "unixToNTP unixTime = unixTime + NTP_EPOCH_OFFSET"

text \<open>\<open>writeUint32(&buf[off], val)\<close>: four bytes in network order.\<close>

definition writeUint32 :: "nat \<Rightarrow> u32 \<Rightarrow> u8 list \<Rightarrow> u8 list" where
  "writeUint32 off val buf =
     buf[off := ucast (drop_bit 24 val AND 0xFF),
         off + 1 := ucast (drop_bit 16 val AND 0xFF),
         off + 2 := ucast (drop_bit 8 val AND 0xFF),
         off + 3 := ucast (val AND 0xFF)]"

text \<open>\<open>memcpy(&dst[d], &src[s], n)\<close> on byte arrays.\<close>

fun memcpy :: "u8 list \<Rightarrow> nat \<Rightarrow> u8 list \<Rightarrow> nat \<Rightarrow> nat \<Rightarrow> u8 list" where
  "memcpy dst d src so 0 = dst"
| "memcpy dst d src so (Suc n) = memcpy (dst[d := src ! so]) (Suc d) src (Suc so) n"

text \<open>
  \<open>NTPServer::buildResponse\<close>. \<open>now1\<close> and \<open>now2\<close> are the two readings of \<open>millis()\<close>
  behind the two calls of \<open>getMilliseconds\<close>. The result is the response buffer and the
  time manager after the calls.
\<close>

definition buildResponse ::
  "u32 \<Rightarrow> u32 \<Rightarrow> NTPServer \<Rightarrow> TimeManager \<Rightarrow> u8 list \<Rightarrow> u8 list \<times> TimeManager" where
  "buildResponse now1 now2 srv tm request =
     (let response0 = replicate NTP_PACKET_SIZE (0 :: u8);
          (unixTime, tm1) = getUnixTime tm;
          ntpNow = unixToNTP unixTime;
          (ms, tm2) = getMilliseconds now1 tm1;
          ntpFraction = (ucast ms :: u32) * 4294967;
          clientVersion0 = (drop_bit 3 (request ! 0)) AND 0x07;
          clientVersion = (if clientVersion0 < 3 then 3 else clientVersion0);
          response1 = response0[0 := push_bit 3 clientVersion OR 0x04];
          response2 = response1[1 := stratum srv];
          response3 = response2[2 := request ! 2];
          response4 = response3[3 := 0xF6];
          response5 = writeUint32 8 0x000003E8 response4;
          response6 = memcpy response5 12 (refId srv) 0 4;
          response7 = writeUint32 16 ntpNow response6;
          response8 = writeUint32 20 0 response7;
          response9 = memcpy response8 24 request 40 8;
          response10 = writeUint32 32 ntpNow response9;
          response11 = writeUint32 36 ntpFraction response10;
          (ms2, tm3) = getMilliseconds now2 tm2;
          txFraction = (ucast ms2 :: u32) * 4294967;
          response12 = writeUint32 40 ntpNow response11;
          response13 = writeUint32 44 txFraction response12
      in (response13, tm3))"

text \<open>
  \<open>NTPServer::handleClient\<close>. The serial log lines, and \<open>clientVN\<close> and \<open>clientMode\<close>
  which only they use, are left out.
\<close>

definition handleClient ::
  "u32 \<Rightarrow> u32 \<Rightarrow> NTPServer \<times> TimeManager \<Rightarrow> NTPServer \<times> TimeManager" where
  "handleClient now1 now2 w =
     (let (srv, tm) = w
      in if \<not> running srv then (srv, tm)
         else let (packetSize, u1) = udp_parsePacket (udp srv)
              in if packetSize = 0 then (srv\<lparr>udp := u1\<rparr>, tm)
                 else let remoteAddr = rx_remote u1
                      in if packetSize < int NTP_PACKET_SIZE
                         then (let (discard, u2) = udp_read (nat packetSize) u1
                               in (srv\<lparr>udp := u2\<rparr>, tm))
                         else
                           (let (request, u2) = udp_read NTP_PACKET_SIZE u1;
                                (isSet, tm1) = isTimeSet tm
                            in if \<not> isSet then (srv\<lparr>udp := u2\<rparr>, tm1)
                               else let (unixTime, tm2) = getUnixTime tm1;
                                        ntpNow = unixToNTP unixTime
                                    in if ntpNow < 3786825600 then (srv\<lparr>udp := u2\<rparr>, tm2)
                                       else let (response, tm3) =
                                                  buildResponse now1 now2 srv tm2 request;
                                                u3 = udp_send remoteAddr response u2
                                            in (srv\<lparr>udp := u3,
                                                    requestCount := requestCount srv + 1\<rparr>, tm3)))"

section \<open>ES100: the receiver driver's register reads (ES100.h, ES100.cpp)\<close>

text \<open>
  Modelled from the spec: the bus is the platform's \<open>TwoWire\<close> object, which is not part of
  the repository. The driver's calls on it are recorded in order; \<open>EndTransmission stop\<close>
  records \<open>endTransmission(stop)\<close>, which ends the write phase with a stop condition when
  \<open>stop\<close> is true and keeps the bus for a repeated start when it is false.
\<close>

datatype i2c_call =
  BeginTransmission u8
| WriteByte u8
| EndTransmission bool
| RequestFrom u8 u8
| ReadByte

text \<open>
  The driver's state as far as the register functions use it: \<open>wire\<close> says that \<open>_wire\<close>
  is not null, \<open>en_high\<close> is the level of the enable pin that \<open>isPoweredOn()\<close> reads, and
  \<open>bus_log\<close> is the record of calls on the bus.
\<close>

record ES100 =
  wire :: bool
  en_high :: bool
  bus_log :: "i2c_call list"

definition ES100_I2C_ADDR :: u8 where
  "ES100_I2C_ADDR = 0x32"

definition ES100_REG_YEAR :: u8 where
  "ES100_REG_YEAR = 0x04"

definition ES100_REG_DEVICE_ID :: u8 where
  "ES100_REG_DEVICE_ID = 0x0D"

definition isPoweredOn :: "ES100 \<Rightarrow> bool" where
  "isPoweredOn d = en_high d"

definition bus_calls :: "i2c_call list \<Rightarrow> ES100 \<Rightarrow> ES100" where
  "bus_calls cs d = d\<lparr>bus_log := bus_log d @ cs\<rparr>"

text \<open>
  \<open>ES100::readRegister\<close>. What the bus answers is given: \<open>err\<close> is the value
  \<open>endTransmission\<close> returns, \<open>got\<close> the count \<open>requestFrom\<close> returns and \<open>val\<close> the
  byte \<open>read()\<close> returns.
\<close>

definition readRegister :: "u8 \<Rightarrow> u8 \<Rightarrow> u8 \<Rightarrow> u8 \<Rightarrow> ES100 \<Rightarrow> u8 \<times> ES100" where
  "readRegister reg err got val d =
     (if \<not> wire d \<or> \<not> isPoweredOn d then (0xFF, d)
      else let d1 = bus_calls [BeginTransmission ES100_I2C_ADDR, WriteByte reg,
                               EndTransmission False] d
           in if err \<noteq> 0 then (0xFF, d1)
              else let d2 = bus_calls [RequestFrom ES100_I2C_ADDR 1] d1
                   in if got \<noteq> 1 then (0xFF, d2)
                      else (val, bus_calls [ReadByte] d2))"

text \<open>
  \<open>ES100::readRegisters\<close>; \<open>vals\<close> are the bytes the successive calls of \<open>read()\<close>
  return, and the result is the count with the bytes stored in the caller's buffer
  (\<open>buffer\<close> is taken to be non-null and large enough).
\<close>

definition readRegisters ::
  "u8 \<Rightarrow> u8 \<Rightarrow> u8 \<Rightarrow> u8 \<Rightarrow> u8 list \<Rightarrow> ES100 \<Rightarrow> (u8 \<times> u8 list) \<times> ES100" where
  "readRegisters startReg count err got vals d =
     (if \<not> wire d \<or> \<not> isPoweredOn d then ((0, []), d)
      else let d1 = bus_calls [BeginTransmission ES100_I2C_ADDR, WriteByte startReg,
                               EndTransmission False] d
           in if err \<noteq> 0 then ((0, []), d1)
              else let d2 = bus_calls [RequestFrom ES100_I2C_ADDR count] d1;
                       bytesRead = got
                   in ((bytesRead, take (unat bytesRead) vals),
                       bus_calls (replicate (unat bytesRead) ReadByte) d2))"

text \<open>
  A register read keeps the rule "a full stop between the register-address write and
  the data read" when each \<open>requestFrom\<close> in its record of bus calls comes directly after
  an \<open>endTransmission\<close> that sent the stop condition.
\<close>

fun stop_before_read :: "i2c_call list \<Rightarrow> bool" where
  "stop_before_read (EndTransmission stop # RequestFrom a n # cs) =
     (stop \<and> stop_before_read cs)"
| "stop_before_read (RequestFrom a n # cs) = False"
| "stop_before_read (c # cs) = stop_before_read cs"
| "stop_before_read [] = True"

section \<open>ReceptionHistory: the 48-hour success history (ReceptionHistory.h, ReceptionHistory.cpp)\<close>

definition HISTORY_BUCKETS :: nat where
  "HISTORY_BUCKETS = 48"

text \<open>
  The members of \<open>class ReceptionHistory\<close>. \<open>_totalSuccess\<close> and \<open>_totalAttempts\<close> are
  \<open>int\<close>: 32-bit words read as two's complement.
\<close>

record ReceptionHistory =
  buckets :: "u8 list"
  currentBucket :: u8
  totalSuccess :: u32
  totalAttempts :: u32
  lastSuccessTime :: u32
  lastAttemptTime :: u32
  lastHourMillis :: u32
  secondsInCurrentHour :: u32

text \<open>The constructor \<open>ReceptionHistory::ReceptionHistory()\<close>.\<close>

definition ReceptionHistory_new :: ReceptionHistory where
  "ReceptionHistory_new =
     \<lparr>buckets = replicate HISTORY_BUCKETS 0, currentBucket = of_nat (HISTORY_BUCKETS - 1),
      totalSuccess = 0, totalAttempts = 0, lastSuccessTime = 0, lastAttemptTime = 0,
      lastHourMillis = 0, secondsInCurrentHour = 0\<rparr>"

text \<open>
  \<open>ReceptionHistory::recordAttempt\<close>; both calls of \<open>millis()\<close> are taken to read the
  same value \<open>now\<close>.
\<close>

definition recordAttempt :: "u32 \<Rightarrow> bool \<Rightarrow> ReceptionHistory \<Rightarrow> ReceptionHistory" where
  "recordAttempt now success h =
     (let h1 = h\<lparr>totalAttempts := totalAttempts h + 1, lastAttemptTime := now\<rparr>
      in if success then
           (let h2 = h1\<lparr>totalSuccess := totalSuccess h1 + 1, lastSuccessTime := now\<rparr>;
                i = unat (currentBucket h2)
            in if buckets h2 ! i < 255
               then h2\<lparr>buckets := (buckets h2)[i := buckets h2 ! i + 1]\<rparr>
               else h2)
         else h1)"

text \<open>The loop \<open>for (int i = 0; i < HISTORY_BUCKETS - 1; i++)\<close> of \<open>shiftBuckets\<close>.\<close>

function shift_loop :: "nat \<Rightarrow> u8 list \<Rightarrow> u8 list" where
  "shift_loop i bs =
     (if i < HISTORY_BUCKETS - 1 then shift_loop (i + 1) (bs[i := bs ! (i + 1)]) else bs)"
  by pat_completeness auto
termination
  by (relation "measure (\<lambda>(i, bs). HISTORY_BUCKETS - 1 - i)") auto

declare shift_loop.simps [simp del]

text \<open>\<open>ReceptionHistory::shiftBuckets\<close>.\<close>

definition shiftBuckets :: "ReceptionHistory \<Rightarrow> ReceptionHistory" where
  "shiftBuckets h = h\<lparr>buckets := (shift_loop 0 (buckets h))[HISTORY_BUCKETS - 1 := 0]\<rparr>"

text \<open>\<open>ReceptionHistory::hourlyTick\<close>.\<close>

definition hourlyTick :: "ReceptionHistory \<Rightarrow> ReceptionHistory" where
  "hourlyTick h =
     (let h1 = h\<lparr>secondsInCurrentHour := secondsInCurrentHour h + 1\<rparr>
      in if secondsInCurrentHour h1 \<ge> 3600
         then shiftBuckets (h1\<lparr>secondsInCurrentHour := 0\<rparr>)
         else h1)"

definition getLastSuccessTime :: "ReceptionHistory \<Rightarrow> u32" where
  "getLastSuccessTime h = lastSuccessTime h"

section \<open>The application (wwvb_clock.ino)\<close>

subsection \<open>Restoring the saved time\<close>

text \<open>
  Modelled from the spec: the key-value store is the platform's \<open>Preferences\<close> object,
  which is not part of the repository. The namespace \<open>wwvb\<close> is a record of the stored
  values, \<open>None\<close> for a key that was never written.
\<close>

record Preferences =
  p_year :: "u16 option"
  p_month :: "u8 option"
  p_day :: "u8 option"
  p_hour :: "u8 option"
  p_minute :: "u8 option"
  p_second :: "u8 option"
  p_dst :: "bool option"
  p_saveMillis :: "u32 option"

text \<open>\<open>getUShort(key, def)\<close>, \<open>getUChar(key, def)\<close>, \<open>getBool\<close> and \<open>getULong\<close>.\<close>

definition pref_get :: "'a option \<Rightarrow> 'a \<Rightarrow> 'a" where
  "pref_get v def = (case v of None \<Rightarrow> def | Some x \<Rightarrow> x)"

text \<open>
  The loop \<open>for (unsigned long i = 0; i < elapsedSeconds; i++) timeManager.tick();\<close>:
  \<open>clock i\<close> is the value of \<open>millis()\<close> that the call of \<open>tick\<close> in pass \<open>i\<close> reads.
\<close>

function tick_loop :: "(nat \<Rightarrow> u32) \<Rightarrow> nat \<Rightarrow> nat \<Rightarrow> TimeManager \<Rightarrow> TimeManager" where
  "tick_loop clock i elapsedSeconds tm =
     (if i < elapsedSeconds then tick_loop clock (i + 1) elapsedSeconds (tick (clock i) tm)
      else tm)"
  by pat_completeness auto
termination
  by (relation "measure (\<lambda>(clock, i, elapsedSeconds, tm). elapsedSeconds - i)") auto

declare tick_loop.simps [simp del]

text \<open>
  \<open>loadTimeFromPreferences\<close>, on the two globals it writes, \<open>timeManager\<close> and
  \<open>dstActive\<close>. \<open>now0\<close> is the value of \<open>millis()\<close> read in \<open>setTime\<close>, \<open>now1\<close> the one
  read for \<open>elapsedMillis\<close>. The result is the returned flag and the two globals.
\<close>

definition loadTimeFromPreferences ::
  "Preferences \<Rightarrow> u32 \<Rightarrow> u32 \<Rightarrow> (nat \<Rightarrow> u32) \<Rightarrow> TimeManager \<times> bool \<Rightarrow> bool \<times> TimeManager \<times> bool" where
  "loadTimeFromPreferences prefs now0 now1 clock g =
     (let (tm, dstActive) = g
      in if p_year prefs = None then (False, tm, dstActive)
         else let year = pref_get (p_year prefs) 2025;
                  month = pref_get (p_month prefs) 1;
                  day = pref_get (p_day prefs) 1;
                  hour = pref_get (p_hour prefs) 0;
                  minute = pref_get (p_minute prefs) 0;
                  second = pref_get (p_second prefs) 0;
                  dstActive1 = pref_get (p_dst prefs) False;
                  saveMillis = pref_get (p_saveMillis prefs) 0;
                  tm1 = setTime now0 year month day hour minute second tm;
                  elapsedMillis = now1 - saveMillis
              in if elapsedMillis < 3600000
                 then (let elapsedSeconds = elapsedMillis div 1000
                       in (True, tick_loop clock 0 (unat elapsedSeconds) tm1, dstActive1))
                 else (True, tm1, dstActive1))"

subsection \<open>The sync schedule\<close>

text \<open>\<open>struct ES100Time\<close>, the decoded reading; the fields carry the prefix \<open>et_\<close>.\<close>

record ES100Time =
  et_year :: u16
  et_month :: u8
  et_day :: u8
  et_hour :: u8
  et_minute :: u8
  et_second :: u8
  et_dstStatus :: u8
  et_antenna2Used :: bool

text \<open>The calls on the driver object \<open>es100\<close> that start and stop a reception.\<close>

datatype es100_call = StartReception u8 | StopReception

text \<open>
  The globals of the sketch that the sync schedule reads and writes. \<open>utcOffset\<close> is an
  \<open>int8_t\<close>, a byte read as two's complement. \<open>es100_calls\<close> is the record of the
  receptions started and stopped on the driver. The writes of a successful decode to the
  key-value store, to the real-time-clock chip, to the NTP server's stratum and to the
  time-source variables are outside this record.
\<close>

record App =
  timeManager :: TimeManager
  receptionHistory :: ReceptionHistory
  utcOffset :: u8
  dstActive :: bool
  es100InterruptFlag :: bool
  es100Receiving :: bool
  es100Available :: bool
  es100TrackingReady :: bool
  es100UsingTracking :: bool
  lastSyncAttempt :: u32
  daytimeFailures :: u8
  daytimeSkipActive :: bool
  es100_calls :: "es100_call list"

definition SYNC_INTERVAL_INITIAL_MS :: u32 where
  "SYNC_INTERVAL_INITIAL_MS = 300000"

definition SYNC_INTERVAL_NIGHT_MS :: u32 where
  "SYNC_INTERVAL_NIGHT_MS = 3600000"

definition SYNC_INTERVAL_DAY_MS :: u32 where
  "SYNC_INTERVAL_DAY_MS = 14400000"

definition SYNC_NIGHT_START_HOUR :: u8 where
  "SYNC_NIGHT_START_HOUR = 22"

definition SYNC_NIGHT_END_HOUR :: u8 where
  "SYNC_NIGHT_END_HOUR = 6"

definition SYNC_DAY_MAX_FAILURES :: u8 where
  "SYNC_DAY_MAX_FAILURES = 3"

definition SYNC_TIMEOUT_NORMAL_MS :: u32 where
  "SYNC_TIMEOUT_NORMAL_MS = 180000"

definition SYNC_TIMEOUT_TRACKING_MS :: u32 where
  "SYNC_TIMEOUT_TRACKING_MS = 30000"

definition ES100_CTRL0_NORMAL :: u8 where
  "ES100_CTRL0_NORMAL = 0x01"

definition ES100_CTRL0_TRACKING :: u8 where
  "ES100_CTRL0_TRACKING = 0x10"

definition ES100_IRQ_RX_COMPLETE :: u8 where
  "ES100_IRQ_RX_COMPLETE = 0x01"

definition ES100_STATUS_RX_OK :: u8 where
  "ES100_STATUS_RX_OK = 0x01"

text \<open>\<open>isNighttimeWindow\<close>: the result and the globals after the call.\<close>

definition isNighttimeWindow :: "App \<Rightarrow> bool \<times> App" where
  "isNighttimeWindow a =
     (let (isSet, tm1) = isTimeSet (timeManager a)
      in if \<not> isSet then (True, a\<lparr>timeManager := tm1\<rparr>)
         else let (local, tm2) = getLocalTime (utcOffset a) (dstActive a) tm1
              in (ct_hour local \<ge> SYNC_NIGHT_START_HOUR \<or> ct_hour local < SYNC_NIGHT_END_HOUR,
                  a\<lparr>timeManager := tm2\<rparr>))"

text \<open>
  \<open>computeUSDST\<close>. \<open>dow1\<close>, \<open>secondSunday\<close> and \<open>firstSunday\<close> are \<open>int\<close>; the day and
  hour bytes are widened to \<open>int\<close> for the comparisons.
\<close>

definition computeUSDST :: "App \<Rightarrow> bool \<times> App" where
  "computeUSDST a =
     (let (isSet, tm1) = isTimeSet (timeManager a)
      in if \<not> isSet then (False, a\<lparr>timeManager := tm1\<rparr>)
         else let (local, tm2) = getLocalTime (utcOffset a) False tm1;
                  a1 = a\<lparr>timeManager := tm2\<rparr>
              in if ct_month local < 3 \<or> ct_month local > 11 then (False, a1)
                 else if ct_month local > 3 \<and> ct_month local < 11 then (True, a1)
                 else if ct_month local = 3 then
                   (let dow1 = calculateDayOfWeek (ct_year local) 3 1;
                        secondSunday = (1 + c_rem (7 - dow1) 7) + 7
                    in (uint (ct_day local) > secondSunday \<or>
                        (uint (ct_day local) = secondSunday \<and> uint (ct_hour local) \<ge> 2), a1))
                 else
                   (let dow1 = calculateDayOfWeek (ct_year local) 11 1;
                        firstSunday = 1 + c_rem (7 - dow1) 7
                    in (uint (ct_day local) < firstSunday \<or>
                        (uint (ct_day local) = firstSunday \<and> uint (ct_hour local) < 2), a1)))"

text \<open>\<open>getSyncInterval\<close>: the interval and the globals after the call.\<close>

definition getSyncInterval :: "App \<Rightarrow> u32 \<times> App" where
  "getSyncInterval a =
     (if getLastSuccessTime (receptionHistory a) = 0 then (SYNC_INTERVAL_INITIAL_MS, a)
      else let (night, a1) = isNighttimeWindow a
           in if night
              then (SYNC_INTERVAL_NIGHT_MS, a1\<lparr>daytimeFailures := 0, daytimeSkipActive := False\<rparr>)
              else if daytimeSkipActive a1 then (SYNC_INTERVAL_DAY_MS, a1)
              else (SYNC_INTERVAL_DAY_MS, a1))"

text \<open>
  \<open>recordSyncFailure\<close>. In this and the following functions \<open>now\<close> is the value that the
  calls of \<open>millis()\<close> in the function read.
\<close>

definition recordSyncFailure :: "u32 \<Rightarrow> App \<Rightarrow> App" where
  "recordSyncFailure now a =
     (let a1 = a\<lparr>receptionHistory := recordAttempt now False (receptionHistory a)\<rparr>;
          (night, a2) = isNighttimeWindow a1
      in if \<not> night then
           (let a3 = a2\<lparr>daytimeFailures := daytimeFailures a2 + 1\<rparr>
            in if daytimeFailures a3 \<ge> SYNC_DAY_MAX_FAILURES
               then a3\<lparr>daytimeSkipActive := True\<rparr>
               else a3)
         else a2)"

text \<open>
  \<open>es100.startReception(mode)\<close> and \<open>es100.stopReception()\<close>: the call is recorded;
  whether the driver could start the reception is given to the caller as \<open>started\<close>.
\<close>

definition driver_call :: "es100_call \<Rightarrow> App \<Rightarrow> App" where
  "driver_call c a = a\<lparr>es100_calls := es100_calls a @ [c]\<rparr>"

text \<open>\<open>startWWVBSync\<close>.\<close>

definition startWWVBSync :: "u32 \<Rightarrow> bool \<Rightarrow> App \<Rightarrow> App" where
  "startWWVBSync now started a =
     (if es100Receiving a then a
      else if \<not> es100Available a then a\<lparr>lastSyncAttempt := now\<rparr>
      else let a1 = a\<lparr>es100UsingTracking := False\<rparr>;
               (mode, a2) = (if es100TrackingReady a1
                             then (ES100_CTRL0_NORMAL OR ES100_CTRL0_TRACKING,
                                   a1\<lparr>es100UsingTracking := True\<rparr>)
                             else (ES100_CTRL0_NORMAL, a1));
               a3 = a2\<lparr>es100InterruptFlag := False\<rparr>;
               a4 = driver_call (StartReception mode) a3
           in if started then a4\<lparr>es100Receiving := True, lastSyncAttempt := now\<rparr>
              else recordSyncFailure now (a4\<lparr>es100UsingTracking := False\<rparr>))"

text \<open>\<open>stopWWVBSync\<close>.\<close>

definition stopWWVBSync :: "App \<Rightarrow> App" where
  "stopWWVBSync a = (driver_call StopReception a)\<lparr>es100Receiving := False\<rparr>"

text \<open>
  The start of a normal-mode reception after a failed tracking attempt, written out
  twice in the sketch (in \<open>handleES100Interrupt\<close> and in \<open>loop\<close>).
\<close>

definition normal_fallback :: "u32 \<Rightarrow> bool \<Rightarrow> App \<Rightarrow> App" where
  "normal_fallback now started a =
     (let a1 = a\<lparr>es100InterruptFlag := False\<rparr>;
          a2 = driver_call (StartReception ES100_CTRL0_NORMAL) a1
      in if started then a2\<lparr>es100Receiving := True, lastSyncAttempt := now\<rparr>
         else recordSyncFailure now a2)"

text \<open>
  \<open>handleES100Interrupt\<close>. \<open>irqStatus\<close> and \<open>status0\<close> are the register values read;
  \<open>rx\<close> is the reading that \<open>es100.readDateTime\<close> stored, \<open>None\<close> when it returned
  false; \<open>started\<close> is the result of the fallback's \<open>es100.startReception\<close>.
\<close>

definition handleES100Interrupt ::
  "u32 \<Rightarrow> u8 \<Rightarrow> u8 \<Rightarrow> ES100Time option \<Rightarrow> bool \<Rightarrow> App \<Rightarrow> App" where
  "handleES100Interrupt now irqStatus status0 rx started a =
     (if \<not> es100InterruptFlag a \<or> \<not> es100Receiving a then a
      else let a1 = a\<lparr>es100InterruptFlag := False\<rparr>
           in if irqStatus AND ES100_IRQ_RX_COMPLETE \<noteq> 0 then
                (if status0 AND ES100_STATUS_RX_OK \<noteq> 0 then
                   (let a2 =
                          (case rx of
                             Some rxTime \<Rightarrow>
                               (let dstBits = drop_bit 5 status0 AND 0x03
                                in a1\<lparr>timeManager :=
                                         setTime now (et_year rxTime) (et_month rxTime)
                                           (et_day rxTime) (et_hour rxTime) (et_minute rxTime)
                                           (et_second rxTime) (timeManager a1),
                                       dstActive := (dstBits \<ge> 2),
                                       receptionHistory :=
                                         recordAttempt now True (receptionHistory a1),
                                       es100TrackingReady := True,
                                       daytimeFailures := 0,
                                       daytimeSkipActive := False\<rparr>)
                           | None \<Rightarrow> recordSyncFailure now a1)
                    in driver_call StopReception
                         (a2\<lparr>es100Receiving := False, es100UsingTracking := False\<rparr>))
                 else if es100UsingTracking a1 then
                   (let a2 = driver_call StopReception
                               (a1\<lparr>es100Receiving := False, es100UsingTracking := False\<rparr>);
                        a3 = a2\<lparr>es100TrackingReady := False\<rparr>
                    in normal_fallback now started a3)
                 else
                   (let a2 = recordSyncFailure now a1
                    in driver_call StopReception
                         (a2\<lparr>es100Receiving := False, es100UsingTracking := False\<rparr>)))
              else a1)"

text \<open>The block "Periodic sync attempts" of \<open>loop\<close>.\<close>

definition loop_sync :: "u32 \<Rightarrow> bool \<Rightarrow> App \<Rightarrow> App" where
  "loop_sync now started a =
     (if \<not> es100Receiving a then
        (let timeSinceLastAttempt = now - lastSyncAttempt a;
             (interval, a1) = getSyncInterval a;
             (night, a2) = isNighttimeWindow a1;
             skip = (daytimeSkipActive a2 \<and> \<not> night)
         in if \<not> skip \<and> timeSinceLastAttempt \<ge> interval
            then startWWVBSync now started a2
            else a2)
      else a)"

text \<open>The block "Timeout for reception attempts" of \<open>loop\<close>.\<close>

definition loop_timeout :: "u32 \<Rightarrow> bool \<Rightarrow> App \<Rightarrow> App" where
  "loop_timeout now started a =
     (let rxTimeout = (if es100UsingTracking a then SYNC_TIMEOUT_TRACKING_MS
                       else SYNC_TIMEOUT_NORMAL_MS)
      in if es100Receiving a \<and> now - lastSyncAttempt a > rxTimeout then
           (if es100UsingTracking a then
              (let a1 = stopWWVBSync a;
                   a2 = a1\<lparr>es100TrackingReady := False, es100UsingTracking := False\<rparr>
               in normal_fallback now started a2)
            else recordSyncFailure now (stopWWVBSync a))
         else a)"

text \<open>
  What happens to the sync globals while the sketch runs. \<open>Isr\<close> is the interrupt
  routine \<open>es100ISR\<close>; \<open>Handle\<close> is the call of \<open>handleES100Interrupt\<close> in \<open>loop\<close>;
  \<open>Sync\<close> and \<open>Timeout\<close> are the two blocks of \<open>loop\<close> above. \<open>Clock\<close> stands for every
  other statement that writes the clock, the DST flag or the UTC offset (the tick, the
  reading of the real-time-clock chip, the NTP client, the DST recomputation, the offset
  stepper): it may replace the three by any values.
\<close>

datatype event =
  Isr
| Handle u32 u8 u8 "ES100Time option" bool
| Sync u32 bool
| Timeout u32 bool
| Clock TimeManager bool u8

fun step :: "event \<Rightarrow> App \<Rightarrow> App" where
  "step Isr a = a\<lparr>es100InterruptFlag := True\<rparr>"
| "step (Handle now irqStatus status0 rx started) a =
     (if es100InterruptFlag a then handleES100Interrupt now irqStatus status0 rx started a
      else a)"
| "step (Sync now started) a = loop_sync now started a"
| "step (Timeout now started) a = loop_timeout now started a"
| "step (Clock tm dst off) a = a\<lparr>timeManager := tm, dstActive := dst, utcOffset := off\<rparr>"

text \<open>A run of events.\<close>

fun run :: "event list \<Rightarrow> App \<Rightarrow> App" where
  "run [] a = a"
| "run (e # es) a = run es (step e a)"

text \<open>The decode of a reading succeeded in this call of \<open>handleES100Interrupt\<close>.\<close>

fun is_success :: "event \<Rightarrow> App \<Rightarrow> bool" where
  "is_success (Handle now irqStatus status0 rx started) a =
     (es100InterruptFlag a \<and> es100Receiving a \<and>
      irqStatus AND ES100_IRQ_RX_COMPLETE \<noteq> 0 \<and> status0 AND ES100_STATUS_RX_OK \<noteq> 0 \<and>
      rx \<noteq> None)"
| "is_success e a = False"

text \<open>Every event of the run starts while \<open>isNighttimeWindow()\<close> is false.\<close>

fun daytime_run :: "event list \<Rightarrow> App \<Rightarrow> bool" where
  "daytime_run [] a = True"
| "daytime_run (e # es) a = (\<not> fst (isNighttimeWindow a) \<and> daytime_run es (step e a))"

text \<open>No event of the run is a successful decode.\<close>

fun success_free :: "event list \<Rightarrow> App \<Rightarrow> bool" where
  "success_free [] a = True"
| "success_free (e # es) a = (\<not> is_success e a \<and> success_free es (step e a))"

text \<open>The modes of the receptions started on the driver so far, in order.\<close>

fun started_modes :: "es100_call list \<Rightarrow> u8 list" where
  "started_modes [] = []"
| "started_modes (StartReception mode # cs) = mode # started_modes cs"
| "started_modes (StopReception # cs) = started_modes cs"

section \<open>Notions used in the statements\<close>

text \<open>
  Whether \<open>isNighttimeWindow()\<close> answers true depends on the clock, the UTC offset and
  the DST flag only: \<open>night_at\<close> is its answer as a function of the three.
\<close>

definition night_at :: "TimeManager \<Rightarrow> u8 \<Rightarrow> bool \<Rightarrow> bool" where
  "night_at tm off dst = fst (isNighttimeWindow
     \<lparr>timeManager = tm, receptionHistory = ReceptionHistory_new, utcOffset = off, dstActive = dst,
      es100InterruptFlag = False, es100Receiving = False, es100Available = False,
      es100TrackingReady = False, es100UsingTracking = False, lastSyncAttempt = 0,
      daytimeFailures = 0, daytimeSkipActive = False, es100_calls = []\<rparr>)"

text \<open>
  A sequence of calls of \<open>recordAttempt\<close>, each with the counter value it reads and its
  argument.
\<close>

definition record_all :: "(u32 \<times> bool) list \<Rightarrow> ReceptionHistory \<Rightarrow> ReceptionHistory" where
  "record_all ops h = fold (\<lambda>(now, success). recordAttempt now success) ops h"

text \<open>
  Example states: a clock set to 2025-06-15 17:00:00 UTC at counter value 0, an NTP
  server at stratum 1 with reference identifier "WWVB" and one 48-byte version 3 client
  request waiting, and an application at UTC-5 with two daytime failures on record and a
  normal-mode reception running since counter value 0.
\<close>

definition example_clock :: TimeManager where
  "example_clock = setTime 0 2025 6 15 17 0 0 TimeManager_new"

definition example_request :: "u8 list" where
  "example_request = 0x1B # replicate 39 0 @ [1, 2, 3, 4, 5, 6, 7, 8]"

definition example_server :: NTPServer where
  "example_server =
     \<lparr>udp = \<lparr>pending = [((0xC0A80102, 123), example_request)], rx_buf = [],
             rx_remote = (0, 0), sent = []\<rparr>,
      running = True, requestCount = 0, stratum = 1, refId = [0x57, 0x57, 0x56, 0x42]\<rparr>"

text \<open>
  The current time converted to the NTP epoch of 1900 as a number of seconds: the Unix
  time plus the 2,208,988,800 seconds from 1900 to 1970, not reduced to 32 bits.
\<close>

definition ntp_seconds :: "TimeManager \<Rightarrow> nat" where
  "ntp_seconds tm = unat (fst (getUnixTime tm)) + 2208988800"

text \<open>A clock set to 2040-01-01 00:00:00 UTC.\<close>

definition example_clock_2040 :: TimeManager where
  "example_clock_2040 = setTime 0 2040 1 1 0 0 0 TimeManager_new"

definition example_app :: App where
  "example_app =
     \<lparr>timeManager = example_clock, receptionHistory = ReceptionHistory_new,
      utcOffset = - 5, dstActive = False,
      es100InterruptFlag = False, es100Receiving = True, es100Available = True,
      es100TrackingReady = False, es100UsingTracking = False, lastSyncAttempt = 0,
      daytimeFailures = 2, daytimeSkipActive = False, es100_calls = []\<rparr>"

text \<open>
  The part of Zeller's congruence that depends on the year only, for a month from March
  on: \<open>k + k/4 + j/4 - 2*j\<close> with \<open>k\<close> the year of the century and \<open>j\<close> the century.
\<close>

definition zeller_year :: "u16 \<Rightarrow> int" where
  "zeller_year year = uint year mod 100 + (uint year mod 100) div 4 + (uint year div 100) div 4
     - 2 * (uint year div 100)"

text \<open>A clock set to 2025-03-09 07:00:00 UTC, which is 02:00 standard time at UTC-5.\<close>

definition example_march_clock :: TimeManager where
  "example_march_clock = setTime 0 2025 3 9 7 0 0 TimeManager_new"

text \<open>
  The number of days from the first of month \<open>m\<close> to the end of the year, by the table
  that \<open>daysInMonth\<close> reads.
\<close>

definition days_from :: "u16 \<Rightarrow> nat \<Rightarrow> nat" where
  "days_from year m = sum_list (map (\<lambda>k. unat (daysInMonth year (of_nat k))) [m..<13])"

text \<open>
  The calendar against which the weekdays of the DST rule are read: the Gregorian
  calendar by counting days. A year is a leap year when it is divisible by 4 and not by
  100, or by 400; \<open>cal_day_number y m d\<close> is the number of day \<open>d\<close> of month \<open>m\<close> of
  year \<open>y\<close> when the days are numbered on from 0001-01-01 as day 1; a week has seven
  days and 0001-01-01 is a Monday, so the weekday of a day (0 for Sunday to 6 for
  Saturday) is its number modulo 7. By this count 1970-01-01 is a Thursday and
  2000-01-01 a Saturday.
\<close>

definition cal_leap :: "nat \<Rightarrow> bool" where
  "cal_leap y \<longleftrightarrow> (y mod 4 = 0 \<and> y mod 100 \<noteq> 0) \<or> y mod 400 = 0"

definition cal_year_days :: "nat \<Rightarrow> nat" where
  "cal_year_days y = (if cal_leap y then 366 else 365)"

definition cal_month_days :: "nat \<Rightarrow> nat \<Rightarrow> nat" where
  "cal_month_days y m =
     (if m = 2 then (if cal_leap y then 29 else 28)
      else if m = 4 \<or> m = 6 \<or> m = 9 \<or> m = 11 then 30 else 31)"

definition cal_day_number :: "nat \<Rightarrow> nat \<Rightarrow> nat \<Rightarrow> nat" where
  "cal_day_number y m d =
     sum_list (map cal_year_days [1..<y]) + sum_list (map (cal_month_days y) [1..<m]) + d"

definition cal_weekday :: "nat \<Rightarrow> nat \<Rightarrow> nat \<Rightarrow> nat" where
  "cal_weekday y m d = cal_day_number y m d mod 7"

text \<open>
  The Sundays of month \<open>m\<close> of year \<open>y\<close> by that calendar, in ascending order: the
  second Sunday of the month is \<open>month_sundays y m ! 1\<close> and the first is
  \<open>month_sundays y m ! 0\<close>.
\<close>

definition month_sundays :: "nat \<Rightarrow> nat \<Rightarrow> nat list" where
  "month_sundays y m = filter (\<lambda>d. cal_weekday y m d = 0) [1..<Suc (cal_month_days y m)]"

text \<open>A clock set to 2025-11-02 06:59:59 UTC, which is 01:59:59 standard time at UTC-5.\<close>

definition example_november_clock :: TimeManager where
  "example_november_clock = setTime 0 2025 11 2 6 59 59 TimeManager_new"

section \<open>Facts about words\<close>

lemma unat_ucast_small:
  "unat w < 2 ^ LENGTH('b) \<Longrightarrow> unat (ucast w :: 'b::len word) = unat (w :: 'a::len word)"
  by (simp add: unsigned_ucast_eq take_bit_nat_eq_self)

lemma unat_ucast_16_32: "unat (ucast (w :: u16) :: u32) = unat w"
proof -
  have "unat w < 2 ^ LENGTH(16)" by (rule unsigned_less)
  then show ?thesis by (intro unat_ucast_small) simp
qed

lemma unat_ucast_8_32: "unat (ucast (w :: u8) :: u32) = unat w"
proof -
  have "unat w < 2 ^ LENGTH(8)" by (rule unsigned_less)
  then show ?thesis by (intro unat_ucast_small) simp
qed

lemma u8_not_below_255:
  assumes "\<not> (b :: u8) < 255"
  shows "b = 255"
proof -
  have "unat b < 2 ^ LENGTH(8)" by (rule unsigned_less)
  moreover from assms have "255 \<le> unat b" by (simp add: word_less_nat_alt)
  ultimately have "unat b = unat (255 :: u8)" by simp
  then show ?thesis by (simp only: word_unat_eq_iff)
qed

section \<open>Properties of the register reads\<close>

text \<open>
  Claim C4: every register read of the driver (\<open>readRegister\<close>, \<open>readRegisters\<close>) puts
  a full stop condition on the bus between the register-address write and the data read,
  so that no read uses a repeated start. The code does not: on a powered-on device with
  an answering bus, reading the device-identification register ends the write phase with
  \<open>endTransmission(false)\<close> and goes on to \<open>requestFrom\<close>, and so does the burst read
  of the six time registers.
\<close>

theorem register_reads_use_repeated_start:
  "bus_log (snd (readRegister ES100_REG_DEVICE_ID 0 1 0x10
       \<lparr>wire = True, en_high = True, bus_log = []\<rparr>))
     = [BeginTransmission 0x32, WriteByte 0x0D, EndTransmission False,
        RequestFrom 0x32 1, ReadByte]
   \<and> \<not> stop_before_read (bus_log (snd (readRegister ES100_REG_DEVICE_ID 0 1 0x10
       \<lparr>wire = True, en_high = True, bus_log = []\<rparr>)))
   \<and> \<not> stop_before_read (bus_log (snd (readRegisters ES100_REG_YEAR 6 0 6
       [0x25, 0x06, 0x15, 0x12, 0x00, 0x00] \<lparr>wire = True, en_high = True, bus_log = []\<rparr>)))"
  by (simp add: readRegister_def readRegisters_def bus_calls_def isPoweredOn_def
      ES100_I2C_ADDR_def ES100_REG_DEVICE_ID_def ES100_REG_YEAR_def Let_def)

theorem register_reads_use_repeated_start_witness:
  "wire \<lparr>wire = True, en_high = True, bus_log = []\<rparr> \<and>
   isPoweredOn \<lparr>wire = True, en_high = True, bus_log = []\<rparr> \<and>
   \<not> stop_before_read (bus_log (snd (readRegister ES100_REG_DEVICE_ID 0 1 0x10
       \<lparr>wire = True, en_high = True, bus_log = []\<rparr>)))"
  using register_reads_use_repeated_start by (simp add: isPoweredOn_def)

section \<open>Properties of the clock engine's read operations\<close>

text \<open>
  Claim C10: the read operations \<open>getUTCTime\<close>, \<open>getLocalTime\<close>, \<open>getUnixTime\<close>,
  \<open>getMilliseconds\<close>, \<open>isTimeSet\<close> and \<open>getSecondsSinceSync\<close> leave the whole state of
  the time manager as it was: the stored UTC fields, the time-set flag, the sub-second
  accumulator and the two timestamps, in every state and for every argument. The day,
  month and year rollover of \<open>getLocalTime\<close> works on the returned copy.
\<close>

theorem reads_keep_state:
  "snd (getUTCTime s) = s \<and> snd (getLocalTime off dst s) = s \<and> snd (getUnixTime s) = s \<and>
   snd (getMilliseconds now s) = s \<and> snd (isTimeSet s) = s \<and>
   snd (getSecondsSinceSync now s) = s"
  by (simp add: getUTCTime_def getLocalTime_def getUnixTime_def getMilliseconds_def
      isTimeSet_def getSecondsSinceSync_def Let_def split_beta)

section \<open>Properties of the restore of the saved time\<close>

text \<open>
  Each call of \<open>tick\<close> adds the milliseconds that passed on the counter since the call
  before, not one second: a call that reads the counter value of the last tick leaves a
  set clock as it is, and so does any number of such calls.
\<close>

lemma tick_same_millis:
  assumes "timeSet tm" and "lastTickMillis tm = now" and "accumMillis tm < 1000"
  shows "tick now tm = tm"
proof -
  have id16: "(ucast (ucast (accumMillis tm) :: u32) :: u16) = accumMillis tm"
    by (rule ucast_up_ucast_id) (simp add: is_up)
  from assms(3) have "\<not> 1000 \<le> accumMillis tm" by (simp add: not_le)
  then have "drain_accum tm = tm"
    by (subst drain_accum.simps) simp
  moreover have "tm\<lparr>accumMillis := accumMillis tm, lastTickMillis := lastTickMillis tm\<rparr> = tm"
    by simp
  ultimately show ?thesis
    using assms(1) id16 by (simp add: tick_def Let_def flip: assms(2))
qed

lemma tick_loop_same_millis:
  assumes "timeSet tm" and "lastTickMillis tm = now" and "accumMillis tm < 1000"
  shows "tick_loop (\<lambda>i. now) i n tm = tm"
proof (induction "n - i" arbitrary: i)
  case 0
  then show ?case by (subst tick_loop.simps) simp
next
  case (Suc k)
  then have "k = n - (i + 1)" and "i < n" by simp_all
  with Suc.hyps(1) [of "i + 1"] assms show ?case
    by (subst tick_loop.simps) (simp add: tick_same_millis)
qed

text \<open>
  So a restore whose calls of \<open>tick\<close> read the counter value that \<open>setTime\<close> read (the
  loop runs within that millisecond) ends at the saved date-time, however many seconds are
  to be replayed; and so does, by its own branch, a restore after an hour or more.
\<close>

lemma restore_within_one_millisecond:
  assumes "p_year prefs \<noteq> None"
  shows "loadTimeFromPreferences prefs now now1 (\<lambda>i. now) (tm, dst)
     = (True,
        setTime now (pref_get (p_year prefs) 2025) (pref_get (p_month prefs) 1)
          (pref_get (p_day prefs) 1) (pref_get (p_hour prefs) 0) (pref_get (p_minute prefs) 0)
          (pref_get (p_second prefs) 0) tm,
        pref_get (p_dst prefs) False)"
proof -
  let ?tm1 = "setTime now (pref_get (p_year prefs) 2025) (pref_get (p_month prefs) 1)
          (pref_get (p_day prefs) 1) (pref_get (p_hour prefs) 0) (pref_get (p_minute prefs) 0)
          (pref_get (p_second prefs) 0) tm"
  have "timeSet ?tm1" and "lastTickMillis ?tm1 = now" and "accumMillis ?tm1 < 1000"
    by (simp_all add: setTime_def)
  then have "tick_loop (\<lambda>i. now) 0 n ?tm1 = ?tm1" for n
    by (rule tick_loop_same_millis)
  with assms show ?thesis
    by (simp add: loadTimeFromPreferences_def Let_def)
qed

lemma restore_after_an_hour:
  assumes "p_year prefs \<noteq> None" and "\<not> now1 - pref_get (p_saveMillis prefs) 0 < 3600000"
  shows "loadTimeFromPreferences prefs now0 now1 clock (tm, dst)
     = (True,
        setTime now0 (pref_get (p_year prefs) 2025) (pref_get (p_month prefs) 1)
          (pref_get (p_day prefs) 1) (pref_get (p_hour prefs) 0) (pref_get (p_minute prefs) 0)
          (pref_get (p_second prefs) 0) tm,
        pref_get (p_dst prefs) False)"
  using assms by (simp add: loadTimeFromPreferences_def Let_def)

text \<open>
  Claim C5: when \<open>loadTimeFromPreferences\<close> restores a saved date-time and less than one
  hour has passed since the save timestamp, the restored clock is advanced by exactly the
  elapsed seconds; after one hour or more it stays at the saved value. The code does not
  advance it: with 2025-01-01 00:00:00 saved at counter value 1000 and the restore running
  at counter value 6000 (five seconds elapsed), the five calls of \<open>tick\<close> all read
  6000 and the clock stays at 00:00:00, where the claim has 00:00:05.
\<close>

theorem restore_does_not_replay_elapsed_seconds:
  "(let (ok, tm, dst) =
          loadTimeFromPreferences
            \<lparr>p_year = Some 2025, p_month = Some 1, p_day = Some 1, p_hour = Some 0,
             p_minute = Some 0, p_second = Some 0, p_dst = Some False,
             p_saveMillis = Some 1000\<rparr>
            6000 6000 (\<lambda>i. 6000) (TimeManager_new, False)
    in ok \<and> fst (getUTCTime tm) =
         \<lparr>ct_year = 2025, ct_month = 1, ct_day = 1, ct_hour = 0, ct_minute = 0,
          ct_second = 0\<rparr>)"
  by code_simp

section \<open>Properties of the sub-second read\<close>

lemma mod_1000_u32: "(x :: u32) mod 1000 < 1000"
  by (rule word_mod_less_divisor) simp

lemma ucast_mod_1000: "(ucast ((x :: u32) mod 1000) :: u16) < 1000"
proof -
  have "unat (x mod 1000) < 1000" using mod_1000_u32 [of x] by (simp add: word_less_nat_alt)
  then have "unat (ucast (x mod 1000) :: u16) < 1000"
    by (simp add: unat_ucast_small)
  then show ?thesis by (simp add: word_less_nat_alt)
qed

lemma getMilliseconds_range: "fst (getMilliseconds now s) < 1000"
  by (simp add: getMilliseconds_def Let_def ucast_mod_1000)

lemma getMilliseconds_same_second:
  assumes "unat (accumMillis s) + unat (now2 - lastTickMillis s) < 2 ^ 32"
    and "now1 - lastTickMillis s \<le> now2 - lastTickMillis s"
    and "(unat (accumMillis s) + unat (now1 - lastTickMillis s)) div 1000
       = (unat (accumMillis s) + unat (now2 - lastTickMillis s)) div 1000"
  shows "fst (getMilliseconds now1 s) \<le> fst (getMilliseconds now2 s)"
proof (cases "timeSet s")
  case False
  then show ?thesis by (simp add: getMilliseconds_def)
next
  case True
  define a where "a = unat (accumMillis s)"
  define e1 where "e1 = unat (now1 - lastTickMillis s)"
  define e2 where "e2 = unat (now2 - lastTickMillis s)"
  have le: "e1 \<le> e2" using assms(2) by (simp add: e1_def e2_def word_le_nat_alt)
  have a32: "unat (ucast (accumMillis s) :: u32) = a"
    by (simp add: a_def unat_ucast_16_32)
  have s2: "unat ((ucast (accumMillis s) :: u32) + (now2 - lastTickMillis s)) = a + e2"
    using assms(1) a32 by (simp add: unat_word_ariths a_def e2_def)
  have s1: "unat ((ucast (accumMillis s) :: u32) + (now1 - lastTickMillis s)) = a + e1"
    using assms(1) a32 le by (simp add: unat_word_ariths a_def e1_def e2_def)
  have m1: "unat (fst (getMilliseconds now1 s)) = (a + e1) mod 1000"
    using True s1 by (simp add: getMilliseconds_def Let_def unat_ucast_small unat_mod)
  have m2: "unat (fst (getMilliseconds now2 s)) = (a + e2) mod 1000"
    using True s2 by (simp add: getMilliseconds_def Let_def unat_ucast_small unat_mod)
  have "(a + e1) mod 1000 \<le> (a + e2) mod 1000"
    using le assms(3) unfolding a_def [symmetric] e1_def [symmetric] e2_def [symmetric]
    by (metis add_le_cancel_left div_mult_mod_eq nat_add_left_cancel_le)
  with m1 m2 show ?thesis
    by (simp add: word_le_nat_alt)
qed

lemma getMilliseconds_value:
  assumes "timeSet s"
  shows "unat (fst (getMilliseconds now s))
     = ((unat (accumMillis s) + unat (now - lastTickMillis s)) mod 2 ^ 32) mod 1000"
proof -
  define x where "x = (ucast (accumMillis s) :: u32) + (now - lastTickMillis s)"
  have "unat (x mod 1000) < 1000"
    using mod_1000_u32 [of x] by (simp add: word_less_nat_alt)
  then have "unat (ucast (x mod 1000) :: u16) = unat (x mod 1000)"
    by (simp add: unat_ucast_small)
  also have "\<dots> = unat x mod 1000"
    by (simp add: unat_mod)
  also have "unat x = (unat (accumMillis s) + unat (now - lastTickMillis s)) mod 2 ^ 32"
    by (simp add: x_def unat_word_ariths unat_ucast_16_32)
  finally show ?thesis
    using assms by (simp add: getMilliseconds_def Let_def x_def)
qed

lemma getMilliseconds_unset: "\<not> timeSet s \<Longrightarrow> fst (getMilliseconds now s) = 0"
  by (simp add: getMilliseconds_def)

text \<open>
  Claim C9, as stated: \<open>getMilliseconds\<close> is a read without side effects, returns a value
  from 0 to 999, and of two calls within the same tick the later returns a value at least
  as large as the earlier. The order fails when the second boundary is crossed between
  the calls: on a clock set at counter value 0 and not ticked since, the call at counter
  value 999 returns 999 and the call at 1000 returns 0.
\<close>

theorem getMilliseconds_order_counterexample:
  "\<not> (fst (getMilliseconds 999 example_clock) \<le> fst (getMilliseconds 1000 example_clock))"
  by (simp add: getMilliseconds_def example_clock_def setTime_def TimeManager_new_def Let_def)

text \<open>
  Claim C9, amended: \<open>getMilliseconds\<close> leaves the state as it was and returns a value
  from 0 to 999 that is computed from the elapsed time: on a set clock it is the sum of
  the accumulated milliseconds and the milliseconds elapsed since the last tick (the
  counter value minus \<open>lastTickMillis\<close>), taken in 32 bits, modulo 1000; on an unset
  clock it is 0. Of two calls within the same tick (the same state), the later returns a
  value at least as large as the earlier when both fall into the same whole second, that
  is when the accumulated plus elapsed milliseconds of both have the same quotient by 1000
  (and their sum does not pass the 32-bit range).
\<close>

theorem getMilliseconds_value_range_frame_order:
  "(timeSet s \<longrightarrow>
      unat (fst (getMilliseconds now1 s))
        = ((unat (accumMillis s) + unat (now1 - lastTickMillis s)) mod 2 ^ 32) mod 1000) \<and>
   (\<not> timeSet s \<longrightarrow> fst (getMilliseconds now1 s) = 0) \<and>
   fst (getMilliseconds now1 s) < 1000 \<and> snd (getMilliseconds now1 s) = s \<and>
   (unat (accumMillis s) + unat (now2 - lastTickMillis s) < 2 ^ 32 \<and>
    now1 - lastTickMillis s \<le> now2 - lastTickMillis s \<and>
    (unat (accumMillis s) + unat (now1 - lastTickMillis s)) div 1000
      = (unat (accumMillis s) + unat (now2 - lastTickMillis s)) div 1000
    \<longrightarrow> fst (getMilliseconds now1 s) \<le> fst (getMilliseconds now2 s))"
proof -
  have "snd (getMilliseconds now1 s) = s"
    by (simp add: getMilliseconds_def Let_def)
  then show ?thesis
    using getMilliseconds_range [of now1 s] getMilliseconds_same_second [of s now2 now1]
      getMilliseconds_value [of s now1] getMilliseconds_unset [of s now1]
    by blast
qed

theorem getMilliseconds_value_range_frame_order_witness:
  "timeSet example_clock \<and>
   accumMillis example_clock = 0 \<and> lastTickMillis example_clock = 0 \<and>
   unat (fst (getMilliseconds 100 example_clock)) = 100 \<and>
   unat (fst (getMilliseconds 900 example_clock)) = 900 \<and>
   unat (fst (getMilliseconds 61234 example_clock)) = 234 \<and>
   \<not> timeSet TimeManager_new \<and>
   fst (getMilliseconds 100 TimeManager_new) = 0 \<and>
   unat (accumMillis example_clock) + unat (900 - lastTickMillis example_clock) < 2 ^ 32 \<and>
   (100 :: u32) - lastTickMillis example_clock \<le> 900 - lastTickMillis example_clock \<and>
   (unat (accumMillis example_clock) + unat (100 - lastTickMillis example_clock)) div 1000
     = (unat (accumMillis example_clock) + unat (900 - lastTickMillis example_clock)) div 1000 \<and>
   fst (getMilliseconds 100 example_clock) \<le> fst (getMilliseconds 900 example_clock)"
proof -
  have c: "timeSet example_clock" "accumMillis example_clock = 0"
    "lastTickMillis example_clock = 0"
    by (simp_all add: example_clock_def setTime_def TimeManager_new_def)
  have n: "\<not> timeSet TimeManager_new"
    by (simp add: TimeManager_new_def)
  from getMilliseconds_value_range_frame_order [of example_clock 100 900]
    getMilliseconds_value_range_frame_order [of example_clock 900 900]
    getMilliseconds_value_range_frame_order [of example_clock 61234 61234]
    getMilliseconds_value_range_frame_order [of TimeManager_new 100 100]
  show ?thesis
    using c n by simp
qed

section \<open>Properties of the NTP response\<close>

lemma length_memcpy [simp]: "length (memcpy dst d src so n) = length dst"
  by (induction n arbitrary: dst d so) simp_all

lemma nth_memcpy:
  "i < length dst \<Longrightarrow>
   memcpy dst d src so n ! i = (if d \<le> i \<and> i < d + n then src ! (so + (i - d)) else dst ! i)"
proof (induction n arbitrary: dst d so)
  case 0
  then show ?case by auto
next
  case (Suc n)
  consider "i < d" | "i = d" | "d < i" by arith
  then show ?case
  proof cases
    case 1
    with Suc show ?thesis by simp
  next
    case 2
    with Suc show ?thesis by simp
  next
    case 3
    then have "so + (i - d) = Suc so + (i - Suc d)" by arith
    with 3 Suc show ?thesis by simp
  qed
qed

lemma length_writeUint32 [simp]: "length (writeUint32 off val buf) = length buf"
  by (simp add: writeUint32_def)

lemma nth_writeUint32_other:
  "i < off \<or> off + 4 \<le> i \<Longrightarrow> writeUint32 off val buf ! i = buf ! i"
  by (auto simp: writeUint32_def)

lemma floor_at_3: "(if (x :: u8) < 3 then 3 else x) = max x 3"
  by (auto simp: max_def)

lemma length_buildResponse:
  "length (fst (buildResponse now1 now2 srv tm request)) = 48"
  by (simp add: buildResponse_def Let_def split_beta NTP_PACKET_SIZE_def)

lemma buildResponse_head:
  "fst (buildResponse now1 now2 srv tm request) ! 0
     = push_bit 3 (max (drop_bit 3 (request ! 0) AND 0x07) 3) OR 0x04"
  "fst (buildResponse now1 now2 srv tm request) ! 1 = stratum srv"
  "fst (buildResponse now1 now2 srv tm request) ! 2 = request ! 2"
  "fst (buildResponse now1 now2 srv tm request) ! 3 = 0xF6"
  by (simp_all add: buildResponse_def Let_def split_beta NTP_PACKET_SIZE_def
      nth_writeUint32_other nth_memcpy floor_at_3)

lemma buildResponse_refId:
  assumes "i < 4"
  shows "fst (buildResponse now1 now2 srv tm request) ! (12 + i) = refId srv ! i"
  using assms
  by (simp add: buildResponse_def Let_def split_beta NTP_PACKET_SIZE_def
      nth_writeUint32_other nth_memcpy)

lemma buildResponse_origin:
  assumes "i < 8"
  shows "fst (buildResponse now1 now2 srv tm request) ! (24 + i) = request ! (40 + i)"
  using assms
  by (simp add: buildResponse_def Let_def split_beta NTP_PACKET_SIZE_def
      nth_writeUint32_other nth_memcpy)

text \<open>
  Claim C1: for every 48-byte request, the response that \<open>buildResponse\<close> builds has 48
  bytes; byte 0 is \<open>(max(clientVersion, 3) << 3) | 4\<close>, where \<open>clientVersion\<close> is bits 3 to 5
  of the request's byte 0; byte 1 is the configured stratum; byte 2 is the request's byte
  2; byte 3 is 0xF6; bytes 12 to 15 are the four bytes of the reference identifier; and
  bytes 24 to 31 are the request's bytes 40 to 47.
\<close>

theorem buildResponse_layout:
  assumes "length request = 48" and "length (refId srv) = 4"
  shows "(let response = fst (buildResponse now1 now2 srv tm request);
              clientVersion = drop_bit 3 (request ! 0) AND 0x07
          in length response = 48 \<and>
             response ! 0 = push_bit 3 (max clientVersion 3) OR 4 \<and>
             response ! 1 = stratum srv \<and>
             response ! 2 = request ! 2 \<and>
             response ! 3 = 0xF6 \<and>
             take 4 (drop 12 response) = refId srv \<and>
             take 8 (drop 24 response) = take 8 (drop 40 request))"
proof -
  let ?r = "fst (buildResponse now1 now2 srv tm request)"
  have len: "length ?r = 48" by (rule length_buildResponse)
  have ref: "take 4 (drop 12 ?r) = refId srv"
  proof (rule nth_equalityI)
    show "length (take 4 (drop 12 ?r)) = length (refId srv)"
      using len assms(2) by simp
  next
    fix i assume "i < length (take 4 (drop 12 ?r))"
    then have "i < 4" by simp
    then show "take 4 (drop 12 ?r) ! i = refId srv ! i"
      using len by (simp add: buildResponse_refId)
  qed
  have org: "take 8 (drop 24 ?r) = take 8 (drop 40 request)"
  proof (rule nth_equalityI)
    show "length (take 8 (drop 24 ?r)) = length (take 8 (drop 40 request))"
      using len assms(1) by simp
  next
    fix i assume "i < length (take 8 (drop 24 ?r))"
    then have "i < 8" by simp
    then show "take 8 (drop 24 ?r) ! i = take 8 (drop 40 request) ! i"
      using len assms(1) by (simp add: buildResponse_origin)
  qed
  show ?thesis
    unfolding Let_def
    using len ref org buildResponse_head [of now1 now2 srv tm request] by simp
qed

theorem buildResponse_layout_witness:
  "length example_request = 48 \<and> length (refId example_server) = 4 \<and>
   fst (buildResponse 0 0 example_server example_clock example_request) ! 0 = 0x1C \<and>
   fst (buildResponse 0 0 example_server example_clock example_request) ! 1 = 1 \<and>
   take 4 (drop 12 (fst (buildResponse 0 0 example_server example_clock example_request)))
     = [0x57, 0x57, 0x56, 0x42] \<and>
   take 8 (drop 24 (fst (buildResponse 0 0 example_server example_clock example_request)))
     = [1, 2, 3, 4, 5, 6, 7, 8]"
proof -
  have len: "length example_request = 48" and ref: "length (refId example_server) = 4"
    by (simp_all add: example_request_def example_server_def)
  have b0: "example_request ! 0 = 0x1B" and tail: "take 8 (drop 40 example_request) = [1, 2, 3, 4, 5, 6, 7, 8]"
    by (simp_all add: example_request_def)
  from buildResponse_layout [OF len ref, of 0 0 example_clock] len ref b0 tail
  show ?thesis
    by (simp add: Let_def example_server_def)
qed

section \<open>Properties of the NTP request handling\<close>

lemma getUnixTime_snd: "snd (getUnixTime tm) = tm"
  by (simp add: getUnixTime_def Let_def)

lemma buildResponse_snd: "snd (buildResponse now1 now2 srv tm request) = tm"
  by (simp add: buildResponse_def getUnixTime_def getMilliseconds_def Let_def split_beta)

lemma handleClient_stopped:
  "\<not> running srv \<Longrightarrow> handleClient now1 now2 (srv, tm) = (srv, tm)"
  by (simp add: handleClient_def)

lemma handleClient_empty:
  assumes "running srv" and "pending (udp srv) = []"
  shows "handleClient now1 now2 (srv, tm) = (srv, tm)"
  using assms by (simp add: handleClient_def udp_parsePacket_def Let_def)

lemma handleClient_short:
  assumes "running srv" and "pending (udp srv) = (r, d) # ps" and "length d < 48"
  shows "handleClient now1 now2 (srv, tm)
     = (srv\<lparr>udp := (udp srv)\<lparr>pending := ps, rx_buf := [], rx_remote := r\<rparr>\<rparr>, tm)"
  using assms
  by (simp add: handleClient_def udp_parsePacket_def udp_read_def NTP_PACKET_SIZE_def Let_def)

lemma handleClient_ignored:
  assumes "running srv" and "pending (udp srv) = (r, d) # ps" and "48 \<le> length d"
    and "\<not> timeSet tm \<or> unixToNTP (fst (getUnixTime tm)) < 3786825600"
  shows "handleClient now1 now2 (srv, tm)
     = (srv\<lparr>udp := (udp srv)\<lparr>pending := ps, rx_buf := drop 48 d, rx_remote := r\<rparr>\<rparr>, tm)"
proof -
  from assms(3) have ne: "d \<noteq> []" and nl: "\<not> length d < 48" by auto
  from assms(1,2,4) ne nl show ?thesis
    by (auto simp: handleClient_def udp_parsePacket_def udp_read_def NTP_PACKET_SIZE_def Let_def
        isTimeSet_def split_beta getUnixTime_snd)
qed

lemma handleClient_answered:
  assumes "running srv" and "pending (udp srv) = (r, d) # ps" and "48 \<le> length d"
    and "timeSet tm" and "3786825600 \<le> unixToNTP (fst (getUnixTime tm))"
  shows "handleClient now1 now2 (srv, tm)
     = (srv\<lparr>udp := (udp srv)\<lparr>pending := ps, rx_buf := drop 48 d, rx_remote := r,
                  sent := sent (udp srv) @ [(r, fst (buildResponse now1 now2 srv tm (take 48 d)))]\<rparr>,
            requestCount := requestCount srv + 1\<rparr>, tm)"
proof -
  from assms(3) have ne: "d \<noteq> []" and nl: "\<not> length d < 48" by auto
  from assms(5) have ok: "\<not> unixToNTP (fst (getUnixTime tm)) < 3786825600"
    by (simp add: not_less)
  from assms(1,2,4) ne nl ok show ?thesis
    by (simp add: handleClient_def udp_parsePacket_def udp_read_def udp_send_def
        NTP_PACKET_SIZE_def Let_def isTimeSet_def split_beta getUnixTime_snd buildResponse_snd)
qed

lemma example_clock_unix: "fst (getUnixTime example_clock) = 1750006800"
  by code_simp

lemma example_clock_2040_unix: "fst (getUnixTime example_clock_2040) = 2208988800"
  by code_simp

text \<open>
  What the code does, for every state in which datagrams wait only on the socket of a
  running server (\<open>stop\<close> closes the socket, and a stopped server returns at once), with
  \<open>ntpNow\<close> the 32-bit value that \<open>unixToNTP\<close> returns. A response is sent if and only
  if the pending datagram has at least 48 bytes, the clock is set and \<open>ntpNow\<close> is at
  least 3,786,825,600; the response is then the packet that \<open>buildResponse\<close> builds from
  the first 48 bytes, sent to the sender of the request, and the request counter goes up
  by one. A datagram shorter than 48 bytes is read to its end and gets no response; a
  request that arrives while the time is unset or \<open>ntpNow\<close> is below the threshold is
  ignored. In both cases nothing is sent, and the server's members other than the socket
  and the clock are as before.
\<close>

lemma handleClient_gate:
  assumes "running srv \<or> pending (udp srv) = []"
  shows "(let (srv', tm') = handleClient now1 now2 (srv, tm);
              ntpNow = unixToNTP (fst (getUnixTime tm));
              kept = (srv'\<lparr>udp := udp srv\<rparr> = srv \<and> tm' = tm \<and>
                      sent (udp srv') = sent (udp srv))
          in (sent (udp srv') \<noteq> sent (udp srv) \<longleftrightarrow>
                (case pending (udp srv) of
                   [] \<Rightarrow> False
                 | (r, d) # ps \<Rightarrow> 48 \<le> length d \<and> timeSet tm \<and> 3786825600 \<le> ntpNow)) \<and>
             (\<forall>r d ps. pending (udp srv) = (r, d) # ps \<and> 48 \<le> length d \<and> timeSet tm \<and>
                  3786825600 \<le> ntpNow \<longrightarrow>
                sent (udp srv')
                  = sent (udp srv) @ [(r, fst (buildResponse now1 now2 srv tm (take 48 d)))] \<and>
                requestCount srv' = requestCount srv + 1 \<and>
                srv'\<lparr>udp := udp srv, requestCount := requestCount srv\<rparr> = srv \<and>
                tm' = tm \<and> pending (udp srv') = ps) \<and>
             (\<forall>r d ps. pending (udp srv) = (r, d) # ps \<and> length d < 48 \<longrightarrow>
                kept \<and> pending (udp srv') = ps \<and> rx_buf (udp srv') = []) \<and>
             (\<forall>r d ps. pending (udp srv) = (r, d) # ps \<and> 48 \<le> length d \<and>
                  (\<not> timeSet tm \<or> ntpNow < 3786825600) \<longrightarrow>
                kept \<and> pending (udp srv') = ps))"
proof (cases "pending (udp srv)")
  case Nil
  then have "handleClient now1 now2 (srv, tm) = (srv, tm)"
    by (cases "running srv") (simp_all add: handleClient_empty handleClient_stopped)
  with Nil show ?thesis by simp
next
  case (Cons p ps)
  with assms have run: "running srv" by simp
  obtain r d where p: "p = (r, d)" by (cases p)
  with Cons have pend: "pending (udp srv) = (r, d) # ps" by simp
  show ?thesis
  proof (cases "length d < 48")
    case True
    with run pend show ?thesis
      by (simp add: handleClient_short [OF run pend True])
  next
    case False
    then have long: "48 \<le> length d" by simp
    show ?thesis
    proof (cases "timeSet tm \<and> 3786825600 \<le> unixToNTP (fst (getUnixTime tm))")
      case True
      then have isSet: "timeSet tm" and fresh: "3786825600 \<le> unixToNTP (fst (getUnixTime tm))"
        by simp_all
      from fresh have nold: "\<not> unixToNTP (fst (getUnixTime tm)) < 3786825600"
        by (simp add: not_less)
      from run pend long isSet fresh nold show ?thesis
        by (simp add: handleClient_answered [OF run pend long isSet fresh])
    next
      case False
      then have ign: "\<not> timeSet tm \<or> unixToNTP (fst (getUnixTime tm)) < 3786825600"
        by (auto simp: not_le)
      from run pend long False ign show ?thesis
        by (simp add: handleClient_ignored [OF run pend long ign])
    qed
  qed
qed

lemma handleClient_gate_example:
  "running example_server \<and>
   sent (udp (fst (handleClient 0 0 (example_server, example_clock))))
     = [((0xC0A80102, 123), fst (buildResponse 0 0 example_server example_clock example_request))] \<and>
   requestCount (fst (handleClient 0 0 (example_server, example_clock))) = 1"
proof -
  have r: "running example_server" by (simp add: example_server_def)
  then have wf: "running example_server \<or> pending (udp example_server) = []" by simp
  have set: "timeSet example_clock"
    by (simp add: example_clock_def setTime_def)
  have fresh: "(3786825600 :: u32) \<le> unixToNTP (fst (getUnixTime example_clock))"
    by (simp add: example_clock_unix unixToNTP_def NTP_EPOCH_OFFSET_def)
  have pend: "pending (udp example_server) = [((0xC0A80102, 123), example_request)]"
    and none: "sent (udp example_server) = []"
    and count: "requestCount example_server = 0"
    by (simp_all add: example_server_def)
  have len: "length example_request = 48" by (simp add: example_request_def)
  from handleClient_gate [OF wf, of 0 0 example_clock] r set fresh pend none count len
  show ?thesis
    by (simp add: Let_def split_beta)
qed

lemma unixToNTP_after_rollover:
  assumes "2 ^ 32 \<le> unat unixTime + 2208988800"
  shows "unat (unixToNTP unixTime) = unat unixTime + 2208988800 - 2 ^ 32"
    and "unixToNTP unixTime < 3786825600"
proof -
  have lt: "unat unixTime < 2 ^ 32"
    using unsigned_less [of unixTime] by simp
  have "unat (unixToNTP unixTime) = (unat unixTime + 2208988800) mod 2 ^ 32"
    by (simp add: unixToNTP_def NTP_EPOCH_OFFSET_def unat_word_ariths)
  also have "\<dots> = unat unixTime + 2208988800 - 2 ^ 32"
    using assms lt by (simp add: mod_if)
  finally show v: "unat (unixToNTP unixTime) = unat unixTime + 2208988800 - 2 ^ 32" .
  with lt show "unixToNTP unixTime < 3786825600"
    by (simp add: word_less_nat_alt)
qed

text \<open>
  Claim C3: \<open>handleClient\<close> sends a response if and only if the pending datagram has
  at least 48 bytes, the clock is set and the current time converted to the NTP epoch is
  at least 3,786,825,600 (the year 2020); a shorter datagram is drained without a
  response, and a request that arrives while the time is unset or implausibly old is
  ignored. The code does not answer every request that the claim says it answers: it
  compares the 32-bit result of \<open>unixToNTP\<close>, which wraps around when the NTP seconds
  reach \<open>2 ^ 32\<close> (2036-02-07 06:28:16 UTC). From then on, for every set clock and every
  request of at least 48 bytes on a running server, the time in the NTP epoch is above
  the threshold, the 32-bit value is the time minus \<open>2 ^ 32\<close> and below the threshold,
  and \<open>handleClient\<close> reads the request, sends nothing and counts nothing.
\<close>

theorem handleClient_silent_after_ntp_rollover:
  assumes "running srv" and "pending (udp srv) = (r, d) # ps" and "48 \<le> length d"
    and "timeSet tm" and "2 ^ 32 \<le> ntp_seconds tm"
  shows "3786825600 \<le> ntp_seconds tm \<and>
         unat (unixToNTP (fst (getUnixTime tm))) = ntp_seconds tm - 2 ^ 32 \<and>
         handleClient now1 now2 (srv, tm)
           = (srv\<lparr>udp := (udp srv)\<lparr>pending := ps, rx_buf := drop 48 d, rx_remote := r\<rparr>\<rparr>, tm) \<and>
         sent (udp (fst (handleClient now1 now2 (srv, tm)))) = sent (udp srv) \<and>
         requestCount (fst (handleClient now1 now2 (srv, tm))) = requestCount srv"
proof -
  from assms(5) have roll: "2 ^ 32 \<le> unat (fst (getUnixTime tm)) + 2208988800"
    by (simp add: ntp_seconds_def)
  note wrapped = unixToNTP_after_rollover [OF roll]
  from wrapped(2) have ign: "\<not> timeSet tm \<or> unixToNTP (fst (getUnixTime tm)) < 3786825600"
    by simp
  have silent: "handleClient now1 now2 (srv, tm)
      = (srv\<lparr>udp := (udp srv)\<lparr>pending := ps, rx_buf := drop 48 d, rx_remote := r\<rparr>\<rparr>, tm)"
    by (rule handleClient_ignored [OF assms(1,2,3) ign])
  from assms(5) have "3786825600 \<le> ntp_seconds tm" by simp
  moreover from wrapped(1)
  have "unat (unixToNTP (fst (getUnixTime tm))) = ntp_seconds tm - 2 ^ 32"
    by (simp add: ntp_seconds_def)
  ultimately show ?thesis
    by (simp add: silent)
qed

theorem handleClient_silent_after_ntp_rollover_witness:
  "running example_server \<and>
   pending (udp example_server) = [((0xC0A80102, 123), example_request)] \<and>
   length example_request = 48 \<and>
   timeSet example_clock_2040 \<and>
   ntp_seconds example_clock_2040 = 4417977600 \<and>
   unixToNTP (fst (getUnixTime example_clock_2040)) = 123010304 \<and>
   sent (udp (fst (handleClient 0 0 (example_server, example_clock_2040)))) = [] \<and>
   requestCount (fst (handleClient 0 0 (example_server, example_clock_2040))) = 0"
proof -
  have r: "running example_server" by (simp add: example_server_def)
  have set: "timeSet example_clock_2040"
    by (simp add: example_clock_2040_def setTime_def)
  have pend: "pending (udp example_server) = [((0xC0A80102, 123), example_request)]"
    and none: "sent (udp example_server) = []"
    and count: "requestCount example_server = 0"
    by (simp_all add: example_server_def)
  have len: "length example_request = 48" by (simp add: example_request_def)
  then have long: "48 \<le> length example_request" by simp
  have secs: "ntp_seconds example_clock_2040 = 4417977600"
    by (simp add: ntp_seconds_def example_clock_2040_unix)
  then have roll: "2 ^ 32 \<le> ntp_seconds example_clock_2040" by simp
  have wrapped: "unixToNTP (fst (getUnixTime example_clock_2040)) = 123010304"
    by (simp add: example_clock_2040_unix unixToNTP_def NTP_EPOCH_OFFSET_def)
  from handleClient_silent_after_ntp_rollover [OF r pend long set roll, of 0 0]
  have "sent (udp (fst (handleClient 0 0 (example_server, example_clock_2040)))) = []"
    and "requestCount (fst (handleClient 0 0 (example_server, example_clock_2040))) = 0"
    by (simp_all add: none count)
  with r pend len set secs wrapped show ?thesis by simp
qed

section \<open>Properties of the reception history\<close>

lemma length_shift_loop [simp]: "length (shift_loop i bs) = length bs"
proof (induction i bs rule: shift_loop.induct)
  case (1 i bs)
  then show ?case by (subst shift_loop.simps) simp
qed

lemma nth_shift_loop:
  "length bs = 48 \<Longrightarrow> j < 48 \<Longrightarrow>
   shift_loop i bs ! j = (if i \<le> j \<and> j < 47 then bs ! (j + 1) else bs ! j)"
proof (induction i bs rule: shift_loop.induct)
  case (1 i bs)
  show ?case
  proof (cases "i < HISTORY_BUCKETS - 1")
    case True
    then have i47: "i < 47" by (simp add: HISTORY_BUCKETS_def)
    have step: "shift_loop i bs = shift_loop (i + 1) (bs[i := bs ! (i + 1)])"
      using True by (subst shift_loop.simps) simp
    have ih: "shift_loop (i + 1) (bs[i := bs ! (i + 1)]) ! j
        = (if i + 1 \<le> j \<and> j < 47 then bs[i := bs ! (i + 1)] ! (j + 1)
           else bs[i := bs ! (i + 1)] ! j)"
      using "1.IH" [OF True] "1.prems" by simp
    show ?thesis
      unfolding step ih using i47 "1.prems" by (auto simp: nth_list_update)
  next
    case False
    then have "47 \<le> i" by (simp add: HISTORY_BUCKETS_def)
    moreover have "shift_loop i bs = bs"
      using False by (subst shift_loop.simps) simp
    ultimately show ?thesis by auto
  qed
qed

lemma buckets_shiftBuckets:
  assumes "length (buckets h) = 48"
  shows "buckets (shiftBuckets h) = tl (buckets h) @ [0]"
proof (rule nth_equalityI)
  show "length (buckets (shiftBuckets h)) = length (tl (buckets h) @ [0])"
    using assms by (simp add: shiftBuckets_def HISTORY_BUCKETS_def)
next
  fix j assume "j < length (buckets (shiftBuckets h))"
  then have j: "j < 48" using assms by (simp add: shiftBuckets_def HISTORY_BUCKETS_def)
  show "buckets (shiftBuckets h) ! j = (tl (buckets h) @ [0]) ! j"
  proof (cases "j = 47")
    case True
    with assms show ?thesis
      by (simp add: shiftBuckets_def HISTORY_BUCKETS_def nth_append)
  next
    case False
    with j have "j < 47" by simp
    with assms j show ?thesis
      by (simp add: shiftBuckets_def HISTORY_BUCKETS_def nth_append nth_shift_loop nth_tl)
  qed
qed

lemma hourlyTick_below:
  assumes "unat (secondsInCurrentHour h) + 1 < 3600"
  shows "hourlyTick h = h\<lparr>secondsInCurrentHour := secondsInCurrentHour h + 1\<rparr>"
proof -
  have "unat (secondsInCurrentHour h + 1) = unat (secondsInCurrentHour h) + 1"
    using assms by (simp add: unat_word_ariths)
  with assms have "\<not> 3600 \<le> secondsInCurrentHour h + 1"
    by (simp add: word_le_nat_alt)
  then show ?thesis by (simp add: hourlyTick_def Let_def)
qed

lemma hourlyTick_funpow_below:
  "unat (secondsInCurrentHour h) + n < 3600 \<Longrightarrow>
   (hourlyTick ^^ n) h = h\<lparr>secondsInCurrentHour := secondsInCurrentHour h + of_nat n\<rparr>"
proof (induction n)
  case 0
  then show ?case by simp
next
  case (Suc n)
  then have ih: "(hourlyTick ^^ n) h = h\<lparr>secondsInCurrentHour := secondsInCurrentHour h + of_nat n\<rparr>"
    by simp
  have "unat (secondsInCurrentHour h + of_nat n) = unat (secondsInCurrentHour h) + n"
    using Suc.prems by (simp add: unat_word_ariths unat_of_nat)
  with Suc.prems have "unat (secondsInCurrentHour (h\<lparr>secondsInCurrentHour := secondsInCurrentHour h + of_nat n\<rparr>)) + 1 < 3600"
    by simp
  from hourlyTick_below [OF this] ih show ?case
    by (simp add: add.assoc)
qed

lemma hourlyTick_hour:
  assumes "secondsInCurrentHour h = 0"
  shows "(hourlyTick ^^ 3600) h = shiftBuckets h"
proof -
  have "(hourlyTick ^^ 3599) h = h\<lparr>secondsInCurrentHour := 3599\<rparr>"
    using hourlyTick_funpow_below [of h 3599] assms by simp
  moreover have "(hourlyTick ^^ 3600) h = hourlyTick ((hourlyTick ^^ 3599) h)"
  proof -
    have "(3600 :: nat) = Suc 3599" by simp
    then show ?thesis by (simp only: funpow.simps o_apply)
  qed
  moreover have "h\<lparr>secondsInCurrentHour := 0\<rparr> = h"
  proof -
    have "h\<lparr>secondsInCurrentHour := 0\<rparr> = h\<lparr>secondsInCurrentHour := secondsInCurrentHour h\<rparr>"
      by (simp only: assms)
    then show ?thesis by simp
  qed
  ultimately show ?thesis
    by (simp add: hourlyTick_def Let_def)
qed

lemma shiftBuckets_counters:
  "totalSuccess (shiftBuckets h) = totalSuccess h \<and>
   totalAttempts (shiftBuckets h) = totalAttempts h \<and>
   currentBucket (shiftBuckets h) = currentBucket h \<and>
   secondsInCurrentHour (shiftBuckets h) = secondsInCurrentHour h"
  by (simp add: shiftBuckets_def)

lemma recordAttempt_failure:
  "recordAttempt now False h = h\<lparr>totalAttempts := totalAttempts h + 1, lastAttemptTime := now\<rparr>"
  by (simp add: recordAttempt_def Let_def)

lemma recordAttempt_success:
  assumes "length (buckets h) = 48" and "currentBucket h = 47"
  shows "recordAttempt now True h =
     h\<lparr>totalAttempts := totalAttempts h + 1, lastAttemptTime := now,
       totalSuccess := totalSuccess h + 1, lastSuccessTime := now,
       buckets := (buckets h)[47 := (if buckets h ! 47 < 255 then buckets h ! 47 + 1 else 255)]\<rparr>"
proof (cases "buckets h ! 47 < 255")
  case True
  with assms show ?thesis by (simp add: recordAttempt_def Let_def)
next
  case False
  then have "buckets h ! 47 = 255"
    by (rule u8_not_below_255)
  then have "(buckets h)[47 := 255] = buckets h"
    by (metis list_update_id)
  with False assms show ?thesis by (simp add: recordAttempt_def Let_def)
qed

lemma saturating_step:
  "unat (if (b :: u8) < 255 then b + 1 else 255) = min (unat b + 1) 255"
proof (cases "b < 255")
  case True
  then have "unat b < 255" by (simp add: word_less_nat_alt)
  then have "unat (b + 1) = unat b + 1" by (simp add: unat_word_ariths)
  with True \<open>unat b < 255\<close> show ?thesis by simp
next
  case False
  then have "b = 255" by (rule u8_not_below_255)
  then show ?thesis by simp
qed

lemma record_all_counts:
  assumes "length (buckets h) = 48" and "currentBucket h = 47"
  shows "totalAttempts (record_all ops h) = totalAttempts h + of_nat (length ops) \<and>
         totalSuccess (record_all ops h) = totalSuccess h + of_nat (length (filter snd ops)) \<and>
         length (buckets (record_all ops h)) = 48 \<and>
         currentBucket (record_all ops h) = 47 \<and>
         (\<forall>i < 47. buckets (record_all ops h) ! i = buckets h ! i) \<and>
         unat (buckets (record_all ops h) ! 47)
           = min (unat (buckets h ! 47) + length (filter snd ops)) 255"
  using assms
proof (induction ops arbitrary: h)
  case Nil
  have "unat (buckets h ! 47) < 2 ^ LENGTH(8)" by (rule unsigned_less)
  with Nil.prems show ?case by (simp add: record_all_def)
next
  case (Cons p ops)
  obtain now ok where p: "p = (now, ok)" by (cases p)
  let ?h1 = "recordAttempt now ok h"
  have run: "record_all (p # ops) h = record_all ops ?h1"
    by (simp add: record_all_def p)
  show ?case
  proof (cases ok)
    case True
    note one = recordAttempt_success [OF Cons.prems, of now]
    have wf1: "length (buckets ?h1) = 48" "currentBucket ?h1 = 47"
      using True one Cons.prems by simp_all
    have b1: "unat (buckets ?h1 ! 47) = min (unat (buckets h ! 47) + 1) 255"
      using True one Cons.prems saturating_step [of "buckets h ! 47"] by simp
    have others: "\<forall>i < 47. buckets ?h1 ! i = buckets h ! i"
      using True one by simp
    from Cons.IH [OF wf1] True one b1 others show ?thesis
      unfolding run by (simp add: p)
  next
    case False
    note one = recordAttempt_failure [of now h]
    have wf1: "length (buckets ?h1) = 48" "currentBucket ?h1 = 47"
      using False one Cons.prems by simp_all
    from Cons.IH [OF wf1] False one show ?thesis
      unfolding run by (simp add: p)
  qed
qed

lemma ReceptionHistory_new_shape:
  "length (buckets ReceptionHistory_new) = 48 \<and> currentBucket ReceptionHistory_new = 47 \<and>
   secondsInCurrentHour ReceptionHistory_new = 0 \<and> buckets ReceptionHistory_new ! 47 = 0"
  by (simp add: ReceptionHistory_new_def HISTORY_BUCKETS_def)

text \<open>
  Claim C7: in a history of 48 buckets whose current bucket is index 47,
  \<open>recordAttempt(success)\<close> adds one to the lifetime attempt counter in every case and, on
  success only, adds one to the lifetime success counter and to bucket 47, which stays at
  255 once it is there. So after any sequence of calls the attempt counter has grown by
  their number, the success counter by the number \<open>k\<close> of successes, the buckets below 47
  are as before and bucket 47 holds the smaller of its old value plus \<open>k\<close> and 255. A run
  of 3600 calls of \<open>hourlyTick\<close> that starts at a full hour leaves the buckets alone for
  its first 3599 calls and then moves every bucket one place towards index 0, drops the
  oldest and sets the newest to 0, starting the next hour. Both operations keep the 48
  buckets and the current bucket; \<open>recordAttempt\<close> leaves the count of seconds in the
  hour alone and \<open>hourlyTick\<close> the lifetime counters.
\<close>

theorem history_counts_and_shift:
  assumes "length (buckets h) = 48" and "currentBucket h = 47"
  shows "totalAttempts (recordAttempt now success h) = totalAttempts h + 1 \<and>
         totalSuccess (recordAttempt now success h)
           = (if success then totalSuccess h + 1 else totalSuccess h) \<and>
         buckets (recordAttempt now success h)
           = (if success
              then (buckets h)[47 := (if buckets h ! 47 < 255 then buckets h ! 47 + 1 else 255)]
              else buckets h) \<and>
         totalAttempts (record_all ops h) = totalAttempts h + of_nat (length ops) \<and>
         totalSuccess (record_all ops h) = totalSuccess h + of_nat (length (filter snd ops)) \<and>
         (\<forall>i < 47. buckets (record_all ops h) ! i = buckets h ! i) \<and>
         unat (buckets (record_all ops h) ! 47)
           = min (unat (buckets h ! 47) + length (filter snd ops)) 255 \<and>
         (secondsInCurrentHour h = 0 \<longrightarrow>
            (\<forall>n < 3600. buckets ((hourlyTick ^^ n) h) = buckets h) \<and>
            buckets ((hourlyTick ^^ 3600) h) = tl (buckets h) @ [0] \<and>
            secondsInCurrentHour ((hourlyTick ^^ 3600) h) = 0 \<and>
            totalAttempts ((hourlyTick ^^ 3600) h) = totalAttempts h \<and>
            totalSuccess ((hourlyTick ^^ 3600) h) = totalSuccess h) \<and>
         length (buckets (recordAttempt now success h)) = 48 \<and>
         currentBucket (recordAttempt now success h) = 47 \<and>
         secondsInCurrentHour (recordAttempt now success h) = secondsInCurrentHour h \<and>
         length (buckets (hourlyTick h)) = 48 \<and>
         currentBucket (hourlyTick h) = 47 \<and>
         totalAttempts (hourlyTick h) = totalAttempts h \<and>
         totalSuccess (hourlyTick h) = totalSuccess h"
proof -
  have one: "totalAttempts (recordAttempt now success h) = totalAttempts h + 1 \<and>
         totalSuccess (recordAttempt now success h)
           = (if success then totalSuccess h + 1 else totalSuccess h) \<and>
         buckets (recordAttempt now success h)
           = (if success
              then (buckets h)[47 := (if buckets h ! 47 < 255 then buckets h ! 47 + 1 else 255)]
              else buckets h)"
  proof (cases success)
    case True
    then show ?thesis by (simp add: recordAttempt_success [OF assms])
  next
    case False
    then show ?thesis by (simp add: recordAttempt_failure)
  qed
  have hour: "(\<forall>n < 3600. buckets ((hourlyTick ^^ n) h) = buckets h) \<and>
            buckets ((hourlyTick ^^ 3600) h) = tl (buckets h) @ [0] \<and>
            secondsInCurrentHour ((hourlyTick ^^ 3600) h) = 0 \<and>
            totalAttempts ((hourlyTick ^^ 3600) h) = totalAttempts h \<and>
            totalSuccess ((hourlyTick ^^ 3600) h) = totalSuccess h"
    if zero: "secondsInCurrentHour h = 0"
  proof -
    have "buckets ((hourlyTick ^^ n) h) = buckets h" if "n < 3600" for n
      using that zero hourlyTick_funpow_below [of h n] by simp
    moreover have "(hourlyTick ^^ 3600) h = shiftBuckets h"
      using zero by (rule hourlyTick_hour)
    ultimately show ?thesis
      using zero buckets_shiftBuckets [OF assms(1)] shiftBuckets_counters [of h] by simp
  qed
  have shape: "length (buckets (recordAttempt now success h)) = 48 \<and>
         currentBucket (recordAttempt now success h) = 47 \<and>
         secondsInCurrentHour (recordAttempt now success h) = secondsInCurrentHour h"
  proof (cases success)
    case True
    with assms show ?thesis by (simp add: recordAttempt_success [OF assms])
  next
    case False
    with assms show ?thesis by (simp add: recordAttempt_failure)
  qed
  have tick: "length (buckets (hourlyTick h)) = 48 \<and>
         currentBucket (hourlyTick h) = 47 \<and>
         totalAttempts (hourlyTick h) = totalAttempts h \<and>
         totalSuccess (hourlyTick h) = totalSuccess h"
    using assms by (simp add: hourlyTick_def shiftBuckets_def Let_def HISTORY_BUCKETS_def)
  from one record_all_counts [OF assms, of ops] hour shape tick show ?thesis by blast
qed

theorem history_counts_and_shift_witness:
  "length (buckets ReceptionHistory_new) = 48 \<and> currentBucket ReceptionHistory_new = 47 \<and>
   secondsInCurrentHour ReceptionHistory_new = 0 \<and>
   totalAttempts (record_all [(10, True), (20, False), (30, True)] ReceptionHistory_new) = 3 \<and>
   totalSuccess (record_all [(10, True), (20, False), (30, True)] ReceptionHistory_new) = 2 \<and>
   unat (buckets (record_all [(10, True), (20, False), (30, True)] ReceptionHistory_new) ! 47) = 2 \<and>
   buckets ((hourlyTick ^^ 3600) ReceptionHistory_new)
     = tl (buckets ReceptionHistory_new) @ [0]"
proof -
  have shape: "length (buckets ReceptionHistory_new) = 48" "currentBucket ReceptionHistory_new = 47"
    "secondsInCurrentHour ReceptionHistory_new = 0" "buckets ReceptionHistory_new ! 47 = 0"
    using ReceptionHistory_new_shape by simp_all
  have fresh: "totalAttempts ReceptionHistory_new = 0" "totalSuccess ReceptionHistory_new = 0"
    by (simp_all add: ReceptionHistory_new_def)
  from history_counts_and_shift [OF shape(1,2),
      of _ _ "[(10, True), (20, False), (30, True)]"] shape fresh
  show ?thesis by simp
qed

section \<open>Properties of the sync schedule\<close>

lemma night_fst:
  "fst (isNighttimeWindow a) = night_at (timeManager a) (utcOffset a) (dstActive a)"
  by (simp add: night_at_def isNighttimeWindow_def isTimeSet_def Let_def split_beta)

lemma night_snd: "snd (isNighttimeWindow a) = a"
  by (simp add: isNighttimeWindow_def isTimeSet_def getLocalTime_def getUTCTime_def Let_def
      split_beta)

lemma recordSyncFailure_eq:
  "recordSyncFailure now a =
     (if fst (isNighttimeWindow a)
      then a\<lparr>receptionHistory := recordAttempt now False (receptionHistory a)\<rparr>
      else a\<lparr>receptionHistory := recordAttempt now False (receptionHistory a),
             daytimeFailures := daytimeFailures a + 1,
             daytimeSkipActive := (daytimeSkipActive a \<or> 3 \<le> daytimeFailures a + 1)\<rparr>)"
  by (cases "3 \<le> daytimeFailures a + 1")
     (simp_all add: recordSyncFailure_def Let_def split_beta night_snd night_fst
       SYNC_DAY_MAX_FAILURES_def)


lemmas sync_defs =
  loop_sync_def loop_timeout_def handleES100Interrupt_def getSyncInterval_def
  startWWVBSync_def normal_fallback_def stopWWVBSync_def driver_call_def
  recordSyncFailure_eq night_fst night_snd Let_def split_beta getLastSuccessTime_def

lemma classified_Isr:
  "daytimeSkipActive (step Isr a) = daytimeSkipActive a \<and>
   daytimeFailures (step Isr a) = daytimeFailures a"
  by simp

lemma classified_Clock:
  "daytimeSkipActive (step (Clock tm dst off) a) = daytimeSkipActive a \<and>
   daytimeFailures (step (Clock tm dst off) a) = daytimeFailures a"
  by simp

lemma classified_Sync:
  "(daytimeSkipActive (loop_sync now started a) = daytimeSkipActive a \<and>
    daytimeFailures (loop_sync now started a) = daytimeFailures a) \<or>
   (\<not> fst (isNighttimeWindow a) \<and>
    daytimeFailures (loop_sync now started a) = daytimeFailures a + 1 \<and>
    daytimeSkipActive (loop_sync now started a)
      = (daytimeSkipActive a \<or> 3 \<le> daytimeFailures a + 1)) \<or>
   (fst (isNighttimeWindow a) \<and> \<not> daytimeSkipActive (loop_sync now started a) \<and>
    daytimeFailures (loop_sync now started a) = 0)"
  by (simp add: sync_defs)

lemma classified_Timeout:
  "(daytimeSkipActive (loop_timeout now started a) = daytimeSkipActive a \<and>
    daytimeFailures (loop_timeout now started a) = daytimeFailures a) \<or>
   (\<not> fst (isNighttimeWindow a) \<and>
    daytimeFailures (loop_timeout now started a) = daytimeFailures a + 1 \<and>
    daytimeSkipActive (loop_timeout now started a)
      = (daytimeSkipActive a \<or> 3 \<le> daytimeFailures a + 1))"
  by (simp add: sync_defs)

lemma classified_Handle:
  "(daytimeSkipActive (step (Handle now irq st rx started) a) = daytimeSkipActive a \<and>
    daytimeFailures (step (Handle now irq st rx started) a) = daytimeFailures a) \<or>
   (\<not> fst (isNighttimeWindow a) \<and>
    daytimeFailures (step (Handle now irq st rx started) a) = daytimeFailures a + 1 \<and>
    daytimeSkipActive (step (Handle now irq st rx started) a)
      = (daytimeSkipActive a \<or> 3 \<le> daytimeFailures a + 1)) \<or>
   (is_success (Handle now irq st rx started) a \<and>
    \<not> daytimeSkipActive (step (Handle now irq st rx started) a) \<and>
    daytimeFailures (step (Handle now irq st rx started) a) = 0)"
  by (cases rx) (simp_all add: sync_defs)


lemma success_clears:
  "is_success e a \<Longrightarrow> \<not> daytimeSkipActive (step e a) \<and> daytimeFailures (step e a) = 0"
proof (cases e)
  case (Handle now irq st rx started)
  assume "is_success e a"
  with Handle show ?thesis
    by (cases rx) (simp_all add: sync_defs)
qed simp_all

lemma skip_gates_loop_sync:
  assumes "daytimeSkipActive a" and "\<not> fst (isNighttimeWindow a)"
  shows "es100_calls (loop_sync now started a) = es100_calls a \<and>
         es100Receiving (loop_sync now started a) = es100Receiving a \<and>
         daytimeSkipActive (loop_sync now started a)"
  using assms by (simp add: sync_defs)

lemma idle_daytime_step:
  assumes "daytimeSkipActive a" and "\<not> es100Receiving a" and "\<not> fst (isNighttimeWindow a)"
  shows "daytimeSkipActive (step e a) \<and> \<not> es100Receiving (step e a) \<and>
         es100_calls (step e a) = es100_calls a"
  using assms by (cases e) (simp_all add: sync_defs)

lemma idle_daytime_run:
  assumes "daytimeSkipActive a" and "\<not> es100Receiving a" and "daytime_run evs a"
  shows "daytimeSkipActive (run evs a) \<and> \<not> es100Receiving (run evs a) \<and>
         es100_calls (run evs a) = es100_calls a"
  using assms
proof (induction evs arbitrary: a)
  case Nil
  then show ?case by simp
next
  case (Cons e evs)
  from Cons.prems have day: "\<not> fst (isNighttimeWindow a)" and rest: "daytime_run evs (step e a)"
    by simp_all
  note one = idle_daytime_step [OF Cons.prems(1,2) day, of e]
  from one have "daytimeSkipActive (step e a)" and "\<not> es100Receiving (step e a)"
    by simp_all
  from Cons.IH [OF this rest] one show ?case by simp
qed

lemma skip_set_idle:
  assumes "\<not> daytimeSkipActive a" and "daytimeSkipActive (step e a)"
  shows "\<not> es100Receiving (step e a)"
proof (cases e)
  case (Handle now irq st rx started)
  with assms show ?thesis
    by (cases rx) (auto simp: sync_defs split: if_splits)
next
  case (Sync now started)
  with assms show ?thesis by (auto simp: sync_defs split: if_splits)
next
  case (Timeout now started)
  with assms show ?thesis by (auto simp: sync_defs split: if_splits)
qed (use assms in simp_all)

lemma started_modes_append [simp]:
  "started_modes (cs @ ds) = started_modes cs @ started_modes ds"
  by (induction cs rule: started_modes.induct) simp_all

lemma backed_off_step:
  assumes "daytimeSkipActive a" and "\<not> (es100Receiving a \<and> es100UsingTracking a)"
    and "\<not> fst (isNighttimeWindow a)" and "\<not> is_success e a"
  shows "daytimeSkipActive (step e a) \<and>
         \<not> (es100Receiving (step e a) \<and> es100UsingTracking (step e a)) \<and>
         started_modes (es100_calls (step e a)) = started_modes (es100_calls a)"
proof (cases e)
  case (Handle t irq st rx ok)
  with assms show ?thesis
    by (cases rx) (auto simp: sync_defs)
next
  case (Sync t ok)
  with assms show ?thesis by (auto simp: sync_defs)
next
  case (Timeout t ok)
  with assms show ?thesis by (auto simp: sync_defs)
qed (use assms in simp_all)

lemma backed_off_run:
  assumes "daytimeSkipActive a" and "\<not> (es100Receiving a \<and> es100UsingTracking a)"
    and "daytime_run evs a" and "success_free evs a"
  shows "daytimeSkipActive (run evs a) \<and>
         started_modes (es100_calls (run evs a)) = started_modes (es100_calls a)"
  using assms
proof (induction evs arbitrary: a)
  case Nil
  then show ?case by simp
next
  case (Cons e evs)
  from Cons.prems have day: "\<not> fst (isNighttimeWindow a)" and nos: "\<not> is_success e a"
    and rest: "daytime_run evs (step e a)" "success_free evs (step e a)"
    by simp_all
  note one = backed_off_step [OF Cons.prems(1,2) day nos]
  from one have "daytimeSkipActive (step e a)"
    and "\<not> (es100Receiving (step e a) \<and> es100UsingTracking (step e a))"
    by simp_all
  from Cons.IH [OF this rest] one show ?case by simp
qed

lemma example_app_daytime:
  "\<not> night_at example_clock (- 5) False"
  by code_simp

text \<open>
  Claim C8: once three consecutive sync failures have been recorded while
  \<open>isNighttimeWindow()\<close> is false, no new sync attempt is started during daytime and the
  skip flag stays set; the flag and the daytime failure counter are cleared only by
  nighttime or by a successful sync, and one success clears both. In the model: every
  step of the sketch either leaves the flag and the counter alone, or records a daytime
  failure (the counter byte grows by one and the flag is set from the third failure on), or
  clears both, and then it is nighttime or the step is a successful decode; a successful
  decode clears both; while the flag is set in daytime the scheduling block of \<open>loop\<close>
  starts no reception; from the step that sets the flag on, through any run of events
  in daytime, the flag stays set and no reception is started or stopped on the driver;
  in any state with the flag set, unless a tracking attempt is still running, a run of
  events in daytime without a successful decode keeps the flag set and starts no
  reception; and of three daytime failures recorded from a cleared counter, the third
  sets the flag and the first two do not.
\<close>

theorem daytime_backoff:
  "((daytimeSkipActive (step e a) = daytimeSkipActive a \<and>
     daytimeFailures (step e a) = daytimeFailures a) \<or>
    (\<not> fst (isNighttimeWindow a) \<and>
     daytimeFailures (step e a) = daytimeFailures a + 1 \<and>
     daytimeSkipActive (step e a) = (daytimeSkipActive a \<or> 3 \<le> daytimeFailures a + 1)) \<or>
    ((fst (isNighttimeWindow a) \<or> is_success e a) \<and>
     \<not> daytimeSkipActive (step e a) \<and> daytimeFailures (step e a) = 0)) \<and>
   (is_success e a \<longrightarrow> \<not> daytimeSkipActive (step e a) \<and> daytimeFailures (step e a) = 0) \<and>
   (daytimeSkipActive a \<and> \<not> fst (isNighttimeWindow a) \<longrightarrow>
      es100_calls (loop_sync now started a) = es100_calls a \<and>
      es100Receiving (loop_sync now started a) = es100Receiving a \<and>
      daytimeSkipActive (loop_sync now started a)) \<and>
   (\<not> daytimeSkipActive a \<and> daytimeSkipActive (step e a) \<and> daytime_run evs (step e a) \<longrightarrow>
      daytimeSkipActive (run evs (step e a)) \<and>
      es100_calls (run evs (step e a)) = es100_calls (step e a)) \<and>
   (daytimeSkipActive a \<and> \<not> (es100Receiving a \<and> es100UsingTracking a) \<and>
    daytime_run evs a \<and> success_free evs a \<longrightarrow>
      daytimeSkipActive (run evs a) \<and>
      started_modes (es100_calls (run evs a)) = started_modes (es100_calls a)) \<and>
   (\<not> fst (isNighttimeWindow a) \<and> \<not> daytimeSkipActive a \<and> daytimeFailures a = 0 \<longrightarrow>
      \<not> daytimeSkipActive (recordSyncFailure n1 a) \<and>
      \<not> daytimeSkipActive (recordSyncFailure n2 (recordSyncFailure n1 a)) \<and>
      daytimeSkipActive (recordSyncFailure n3 (recordSyncFailure n2 (recordSyncFailure n1 a))))"
proof -
  have classified:
    "(daytimeSkipActive (step e a) = daytimeSkipActive a \<and>
      daytimeFailures (step e a) = daytimeFailures a) \<or>
     (\<not> fst (isNighttimeWindow a) \<and>
      daytimeFailures (step e a) = daytimeFailures a + 1 \<and>
      daytimeSkipActive (step e a) = (daytimeSkipActive a \<or> 3 \<le> daytimeFailures a + 1)) \<or>
     ((fst (isNighttimeWindow a) \<or> is_success e a) \<and>
      \<not> daytimeSkipActive (step e a) \<and> daytimeFailures (step e a) = 0)"
  proof (cases e)
    case Isr
    then show ?thesis by simp
  next
    case (Handle t irq st rx ok)
    with classified_Handle [of t irq st rx ok a] show ?thesis by blast
  next
    case (Sync t ok)
    with classified_Sync [of t ok a] show ?thesis by auto
  next
    case (Timeout t ok)
    with classified_Timeout [of t ok a] show ?thesis by auto
  next
    case (Clock tm dst off)
    then show ?thesis by simp
  qed
  have run: "daytimeSkipActive (run evs (step e a)) \<and>
      es100_calls (run evs (step e a)) = es100_calls (step e a)"
    if "\<not> daytimeSkipActive a" and "daytimeSkipActive (step e a)"
      and "daytime_run evs (step e a)"
    using idle_daytime_run [OF that(2) skip_set_idle [OF that(1,2)] that(3)] by simp
  have three: "\<not> daytimeSkipActive (recordSyncFailure n1 a) \<and>
      \<not> daytimeSkipActive (recordSyncFailure n2 (recordSyncFailure n1 a)) \<and>
      daytimeSkipActive (recordSyncFailure n3 (recordSyncFailure n2 (recordSyncFailure n1 a)))"
    if "\<not> fst (isNighttimeWindow a)" and "\<not> daytimeSkipActive a" and "daytimeFailures a = 0"
  proof -
    have "\<not> (3 :: u8) \<le> 1" and "\<not> (3 :: u8) \<le> 1 + 1" and "(3 :: u8) \<le> 1 + 1 + 1"
      by (simp_all add: word_le_nat_alt)
    with that show ?thesis
      by (simp add: recordSyncFailure_eq night_fst)
  qed
  from classified success_clears [of e a] skip_gates_loop_sync [of a now started] run three
    backed_off_run [of a evs]
  show ?thesis by blast
qed

theorem daytime_backoff_witness:
  "\<not> daytimeSkipActive example_app \<and> \<not> fst (isNighttimeWindow example_app) \<and>
   daytimeSkipActive (step (Timeout 200000 False) example_app) \<and>
   daytime_run [Sync 90000000 True, Isr, Sync 90000010 True]
     (step (Timeout 200000 False) example_app) \<and>
   daytimeSkipActive (run [Sync 90000000 True, Isr, Sync 90000010 True]
     (step (Timeout 200000 False) example_app)) \<and>
   es100_calls (run [Sync 90000000 True, Isr, Sync 90000010 True]
     (step (Timeout 200000 False) example_app)) = [StopReception]"
proof -
  define a1 where "a1 = example_app
      \<lparr>receptionHistory := recordAttempt 200000 False ReceptionHistory_new,
        daytimeFailures := 3, daytimeSkipActive := True,
        es100Receiving := False, es100_calls := [StopReception]\<rparr>"
  have day: "\<not> fst (isNighttimeWindow example_app)"
    using example_app_daytime by (simp add: night_fst example_app_def)
  have off: "\<not> daytimeSkipActive example_app"
    by (simp add: example_app_def)
  have t: "loop_timeout 200000 False example_app = a1"
    using day by (simp add: a1_def sync_defs SYNC_TIMEOUT_NORMAL_MS_def example_app_def)
  have day1: "\<not> fst (isNighttimeWindow a1)"
    and day2: "\<not> fst (isNighttimeWindow (a1\<lparr>es100InterruptFlag := True\<rparr>))"
    using example_app_daytime by (simp_all add: night_fst a1_def example_app_def)
  have s1: "loop_sync 90000000 True a1 = a1"
    using day1 by (simp add: sync_defs a1_def)
  have s2: "loop_sync 90000010 True (a1\<lparr>es100InterruptFlag := True\<rparr>)
      = a1\<lparr>es100InterruptFlag := True\<rparr>"
    using day2 by (simp add: sync_defs a1_def)
  have on: "daytimeSkipActive a1" and calls: "es100_calls a1 = [StopReception]"
    by (simp_all add: a1_def)
  have run_day: "daytime_run [Sync 90000000 True, Isr, Sync 90000010 True] a1"
    using day1 day2 by (simp add: s1 s2)
  from daytime_backoff [of "Timeout 200000 False" example_app _ _
      "[Sync 90000000 True, Isr, Sync 90000010 True]"] off on run_day day calls
  show ?thesis by (simp add: t s1 s2)
qed

section \<open>Properties of the DST rule\<close>

text \<open>
  The reference calendar in closed form: the number of leap years up to year \<open>y\<close> is
  \<open>y div 4 - y div 100 + y div 400\<close>, so the days before year \<open>y\<close> are
  \<open>365 * (y - 1)\<close> plus the leap years before \<open>y\<close>.
\<close>

lemma int_div_step:
  fixes y n :: int
  assumes "0 < n"
  shows "y div n = (y - 1) div n + (if y mod n = 0 then 1 else 0)"
proof (cases "y mod n = 0")
  case True
  have "y = n * (y div n) + y mod n" by simp
  with True have "y = n * (y div n)" by simp
  then have eq: "y - 1 = n * (y div n - 1) + (n - 1)"
    by (simp add: algebra_simps)
  have "(y - 1) div n = y div n - 1"
    using eq by (rule int_div_pos_eq) (use assms in simp_all)
  with True show ?thesis by simp
next
  case False
  have "0 \<le> y mod n" and "y mod n < n" using assms by simp_all
  with False have r: "0 \<le> y mod n - 1" "y mod n - 1 < n" by simp_all
  have "y = n * (y div n) + y mod n" by simp
  then have eq: "y - 1 = n * (y div n) + (y mod n - 1)" by simp
  have "(y - 1) div n = y div n"
    using eq r by (rule int_div_pos_eq)
  with False show ?thesis by simp
qed

lemma leap_step:
  fixes y :: int
  shows "y div 4 - y div 100 + y div 400
       = (y - 1) div 4 - (y - 1) div 100 + (y - 1) div 400
         + (if (y mod 4 = 0 \<and> y mod 100 \<noteq> 0) \<or> y mod 400 = 0 then 1 else 0)"
proof -
  have a: "y mod 4 = 0" if "y mod 100 = 0"
  proof -
    have "y mod 100 mod 4 = y mod 4" by (rule mod_mod_cancel) simp
    with that show ?thesis by simp
  qed
  have b: "y mod 100 = 0" if "y mod 400 = 0"
  proof -
    have "y mod 400 mod 100 = y mod 100" by (rule mod_mod_cancel) simp
    with that show ?thesis by simp
  qed
  have s4: "y div 4 = (y - 1) div 4 + (if y mod 4 = 0 then 1 else 0)"
    by (rule int_div_step) simp
  have s100: "y div 100 = (y - 1) div 100 + (if y mod 100 = 0 then 1 else 0)"
    by (rule int_div_step) simp
  have s400: "y div 400 = (y - 1) div 400 + (if y mod 400 = 0 then 1 else 0)"
    by (rule int_div_step) simp
  consider (c400) "y mod 400 = 0" | (c100) "y mod 400 \<noteq> 0" "y mod 100 = 0"
    | (c4) "y mod 100 \<noteq> 0" "y mod 4 = 0" | (c1) "y mod 4 \<noteq> 0"
    by blast
  then show ?thesis
  proof cases
    case c400
    with a b have "y mod 100 = 0" "y mod 4 = 0" by simp_all
    with c400 show ?thesis unfolding s4 s100 s400 by simp
  next
    case c100
    with a have "y mod 4 = 0" by simp
    with c100 show ?thesis unfolding s4 s100 s400 by simp
  next
    case c4
    from c4(1) have "y mod 400 \<noteq> 0" by (rule contrapos_nn) (rule b)
    with c4 show ?thesis unfolding s4 s100 s400 by simp
  next
    case c1
    from c1 have n100: "y mod 100 \<noteq> 0" by (rule contrapos_nn) (rule a)
    then have "y mod 400 \<noteq> 0" by (rule contrapos_nn) (rule b)
    with c1 n100 show ?thesis unfolding s4 s100 s400 by simp
  qed
qed

text \<open>
  The day count of the calendar and the year part of Zeller's congruence differ by a
  constant and a multiple of 7.
\<close>

lemma zeller_year_count:
  fixes y :: int
  shows "\<exists>t. 365 * (y - 1) + (y div 4 - y div 100 + y div 400) + 43
       = y mod 100 + (y mod 100) div 4 + (y div 100) div 4 - 2 * (y div 100) + 7 * t"
proof -
  define j where "j = y div 100"
  define k where "k = y mod 100"
  have y: "y = k + j * 100" by (simp add: j_def k_def)
  have d4: "y div 4 = k div 4 + 25 * j"
  proof -
    have "(k + (25 * j) * 4) div 4 = 25 * j + k div 4"
      by (rule div_mult_self1) simp
    then show ?thesis by (simp add: y)
  qed
  have d400: "y div 400 = j div 4"
  proof -
    have "y div (100 * 4) = (y div 100) div 4"
      by (rule zdiv_zmult2_eq) simp
    then show ?thesis by (simp add: j_def)
  qed
  have d100: "y div 100 = j" by (simp add: j_def)
  have "365 * (y - 1) + (y div 4 - y div 100 + y div 400) + 43
      = 365 * (k + j * 100 - 1) + (k div 4 + 25 * j - j + j div 4) + 43"
    unfolding d4 d400 d100 using y by simp
  also have "\<dots> = k + k div 4 + j div 4 - 2 * j + 7 * (5218 * j + 52 * k - 46)"
    by (simp add: algebra_simps)
  finally show ?thesis
    unfolding j_def [symmetric] k_def [symmetric] by blast
qed

lemma cal_leap_int:
  "cal_leap n \<longleftrightarrow> (int n mod 4 = 0 \<and> int n mod 100 \<noteq> 0) \<or> int n mod 400 = 0"
proof -
  have "int n mod 4 = int (n mod 4)" "int n mod 100 = int (n mod 100)"
    "int n mod 400 = int (n mod 400)"
    by (simp_all add: zmod_int)
  then show ?thesis by (simp add: cal_leap_def)
qed

lemma cal_days_before_year:
  assumes "1 \<le> y"
  shows "int (sum_list (map cal_year_days [1..<y]))
     = 365 * (int y - 1) + ((int y - 1) div 4 - (int y - 1) div 100 + (int y - 1) div 400)"
proof -
  define S where "S n = int (sum_list (map cal_year_days [1..<n]))" for n
  define L where "L n = n div 4 - n div 100 + n div 400" for n :: int
  have first: "S 1 = 0" by (simp add: S_def)
  have step: "S (Suc n) = S n + 365 + (if cal_leap n then 1 else 0)" if "1 \<le> n" for n
  proof -
    have "[1..<Suc n] = [1..<n] @ [n]" using that by simp
    then show ?thesis by (simp add: S_def cal_year_days_def)
  qed
  have leap: "L (int n) = L (int n - 1) + (if cal_leap n then 1 else 0)" for n
    unfolding L_def cal_leap_int by (rule leap_step)
  have "S y = 365 * (int y - 1) + L (int y - 1)"
    using assms
  proof (induction y rule: nat_induct_at_least)
    case base
    show ?case using first by (simp add: L_def)
  next
    case (Suc n)
    have "S (Suc n) = 365 * (int n - 1) + L (int n - 1) + 365 + (if cal_leap n then 1 else 0)"
      by (simp only: step [OF Suc.hyps] Suc.IH)
    also have "\<dots> = 365 * int n + L (int n)"
      by (simp only: leap [of n]) simp
    finally show ?case by simp
  qed
  then show ?thesis by (simp add: S_def L_def)
qed

lemma months_before_march: "[1..<3] = [1, 2 :: nat]"
  by code_simp

lemma months_before_november: "[1..<11] = [1, 2, 3, 4, 5, 6, 7, 8, 9, 10 :: nat]"
  by code_simp

lemma cal_day_number_closed:
  assumes "1 \<le> y"
    and "sum_list (map (cal_month_days y) [1..<m]) = c + (if cal_leap y then 1 else 0)"
  shows "int (cal_day_number y m d)
     = 365 * (int y - 1) + (int y div 4 - int y div 100 + int y div 400) + int c + int d"
proof -
  have leap: "int y div 4 - int y div 100 + int y div 400
      = (int y - 1) div 4 - (int y - 1) div 100 + (int y - 1) div 400
        + (if cal_leap y then 1 else 0)"
    unfolding cal_leap_int by (rule leap_step)
  have ind: "int (if cal_leap y then 1 else 0) = (if cal_leap y then 1 else 0)"
    by simp
  have "int (cal_day_number y m d)
      = 365 * (int y - 1)
        + ((int y - 1) div 4 - (int y - 1) div 100 + (int y - 1) div 400)
        + (int c + (if cal_leap y then 1 else 0)) + int d"
    by (simp only: cal_day_number_def assms(2) of_nat_add ind
        cal_days_before_year [OF assms(1)])
  also have "\<dots> = 365 * (int y - 1) + (int y div 4 - int y div 100 + int y div 400)
        + int c + int d"
    by (simp only: leap)
  finally show ?thesis .
qed

lemma cal_day_number_march:
  assumes "1 \<le> y"
  shows "int (cal_day_number y 3 d)
     = 365 * (int y - 1) + (int y div 4 - int y div 100 + int y div 400) + 59 + int d"
proof -
  have "sum_list (map (cal_month_days y) [1..<3]) = 59 + (if cal_leap y then 1 else 0)"
    unfolding months_before_march by (simp add: cal_month_days_def)
  from cal_day_number_closed [OF assms this, of d] show ?thesis by simp
qed

lemma cal_day_number_november:
  assumes "1 \<le> y"
  shows "int (cal_day_number y 11 d)
     = 365 * (int y - 1) + (int y div 4 - int y div 100 + int y div 400) + 304 + int d"
proof -
  have "sum_list (map (cal_month_days y) [1..<11]) = 304 + (if cal_leap y then 1 else 0)"
    unfolding months_before_november by (simp add: cal_month_days_def)
  from cal_day_number_closed [OF assms this, of d] show ?thesis by simp
qed

text \<open>
  \<open>calculateDayOfWeek\<close> on a day of March or November, and its agreement with the
  weekday of the reference calendar.
\<close>

lemma c_rem_zeller: "c_rem (c_rem x 7 + 6) 7 = (x + 6) mod 7"
proof (cases "x < 0")
  case True
  then have "c_rem x 7 = - ((- x) mod 7)" by (simp add: c_rem_def)
  moreover have "0 \<le> - ((- x) mod 7) + 6" by presburger
  ultimately have "c_rem (c_rem x 7 + 6) 7 = (- ((- x) mod 7) + 6) mod 7"
    by (simp add: c_rem_def)
  also have "\<dots> = (x + 6) mod 7" by presburger
  finally show ?thesis .
next
  case False
  then have "c_rem x 7 = x mod 7" by (simp add: c_rem_def)
  moreover have "0 \<le> x mod 7 + 6" by presburger
  ultimately have "c_rem (c_rem x 7 + 6) 7 = (x mod 7 + 6) mod 7"
    by (simp add: c_rem_def)
  also have "\<dots> = (x + 6) mod 7" by presburger
  finally show ?thesis .
qed

lemma dow_march: "calculateDayOfWeek year 3 day = (uint day + 16 + zeller_year year) mod 7"
proof -
  have m: "\<not> (3 :: u8) < 3" "uint (3 :: u8) = 3" by simp_all
  have "(13 * (3 + 1)) div 5 = (10 :: int)" by simp
  with m have "calculateDayOfWeek year 3 day
      = c_rem (c_rem (uint day + 10 + uint year mod 100 + uint year mod 100 div 4
          + uint year div 100 div 4 - 2 * (uint year div 100)) 7 + 6) 7"
    unfolding calculateDayOfWeek_def Let_def by (simp only: if_False split_conv)
  also have "\<dots> = (uint day + 10 + uint year mod 100 + uint year mod 100 div 4
          + uint year div 100 div 4 - 2 * (uint year div 100) + 6) mod 7"
    by (rule c_rem_zeller)
  also have "\<dots> = (uint day + 16 + zeller_year year) mod 7"
    by (simp add: zeller_year_def algebra_simps)
  finally show ?thesis .
qed

lemma dow_november: "calculateDayOfWeek year 11 day = (uint day + 37 + zeller_year year) mod 7"
proof -
  have m: "\<not> (11 :: u8) < 3" "uint (11 :: u8) = 11" by simp_all
  have "(13 * (11 + 1)) div 5 = (31 :: int)" by simp
  with m have "calculateDayOfWeek year 11 day
      = c_rem (c_rem (uint day + 31 + uint year mod 100 + uint year mod 100 div 4
          + uint year div 100 div 4 - 2 * (uint year div 100)) 7 + 6) 7"
    unfolding calculateDayOfWeek_def Let_def by (simp only: if_False split_conv)
  also have "\<dots> = (uint day + 31 + uint year mod 100 + uint year mod 100 div 4
          + uint year div 100 div 4 - 2 * (uint year div 100) + 6) mod 7"
    by (rule c_rem_zeller)
  also have "\<dots> = (uint day + 37 + zeller_year year) mod 7"
    by (simp add: zeller_year_def algebra_simps)
  finally show ?thesis .
qed

lemma year_as_nat:
  assumes "(year :: u16) \<noteq> 0"
  shows "1 \<le> unat year" and "uint year = int (unat year)"
proof -
  from assms have "unat year \<noteq> 0" by (simp add: unat_eq_0)
  then show "1 \<le> unat year" by simp
  show "uint year = int (unat year)" by simp
qed

lemma zeller_shift:
  assumes "n = z + 7 * t + c + d" and "c mod 7 = (k :: int) mod 7"
  shows "n mod 7 = (d + k + z) mod 7"
proof -
  have "n mod 7 = (c + (z + d + 7 * t)) mod 7"
    by (simp add: assms(1) add_ac)
  also have "\<dots> = (c mod 7 + (z + d + 7 * t)) mod 7"
    by (simp only: mod_add_left_eq)
  also have "\<dots> = (k mod 7 + (z + d + 7 * t)) mod 7"
    by (simp only: assms(2))
  also have "\<dots> = (k + (z + d + 7 * t)) mod 7"
    by (simp only: mod_add_left_eq)
  also have "\<dots> = (d + k + z + 7 * t) mod 7"
    by (simp add: add_ac)
  also have "\<dots> = (d + k + z) mod 7"
    by simp
  finally show ?thesis .
qed

lemma zeller_march:
  assumes "year \<noteq> 0"
  shows "calculateDayOfWeek year 3 day = int (cal_weekday (unat year) 3 (unat day))"
proof -
  define y where "y = unat year"
  note yn = year_as_nat [OF assms, folded y_def]
  obtain t where t: "365 * (int y - 1) + (int y div 4 - int y div 100 + int y div 400) + 43
      = zeller_year year + 7 * t"
    using zeller_year_count [of "int y"] unfolding zeller_year_def yn(2) by blast
  have "int (cal_day_number y 3 (unat day))
      = zeller_year year + 7 * t + 16 + uint day"
    using cal_day_number_march [OF yn(1), of "unat day"] t by simp
  then have "int (cal_day_number y 3 (unat day)) mod 7 = (uint day + 16 + zeller_year year) mod 7"
    by (rule zeller_shift) simp
  then show ?thesis
    by (simp add: dow_march cal_weekday_def y_def zmod_int)
qed

lemma zeller_november:
  assumes "year \<noteq> 0"
  shows "calculateDayOfWeek year 11 day = int (cal_weekday (unat year) 11 (unat day))"
proof -
  define y where "y = unat year"
  note yn = year_as_nat [OF assms, folded y_def]
  obtain t where t: "365 * (int y - 1) + (int y div 4 - int y div 100 + int y div 400) + 43
      = zeller_year year + 7 * t"
    using zeller_year_count [of "int y"] unfolding zeller_year_def yn(2) by blast
  have "int (cal_day_number y 11 (unat day))
      = zeller_year year + 7 * t + 261 + uint day"
    using cal_day_number_november [OF yn(1), of "unat day"] t by simp
  then have "int (cal_day_number y 11 (unat day)) mod 7 = (uint day + 37 + zeller_year year) mod 7"
    by (rule zeller_shift) simp
  then show ?thesis
    by (simp add: dow_november cal_weekday_def y_def zmod_int)
qed

text \<open>
  The Sundays of a month follow from the weekday of its first day: of the seven possible
  weekdays each is checked on the days of the month.
\<close>

lemma cal_weekday_from_first:
  "cal_weekday y m d = (cal_weekday y m 1 + 6 + d) mod 7"
proof -
  define b where "b = sum_list (map cal_year_days [1..<y]) + sum_list (map (cal_month_days y) [1..<m])"
  have "(b + d) mod 7 = (b + 1 + (6 + d)) mod 7" by simp
  also have "\<dots> = ((b + 1) mod 7 + (6 + d)) mod 7" by (simp only: mod_add_left_eq)
  finally show ?thesis
    by (simp add: cal_weekday_def cal_day_number_def b_def add.assoc)
qed

lemma sundays_of_31_days:
  "\<forall>w \<in> set [0..<7]. filter (\<lambda>d. (w + 6 + d) mod 7 = 0) [1..<32] ! 1 = 1 + (7 - w) mod 7 + 7"
  by code_simp

lemma sundays_of_30_days:
  "\<forall>w \<in> set [0..<7]. filter (\<lambda>d. (w + 6 + d) mod 7 = 0) [1..<31] ! 0 = 1 + (7 - w) mod 7"
  by code_simp

lemma second_sunday_of_march:
  "month_sundays y 3 ! 1 = 1 + (7 - cal_weekday y 3 1) mod 7 + 7"
proof -
  define w where "w = cal_weekday y 3 1"
  have "w < 7" by (simp add: w_def cal_weekday_def)
  then have w: "w \<in> set [0..<7]" by simp
  have "cal_weekday y 3 d = (w + 6 + d) mod 7" for d
    unfolding w_def by (rule cal_weekday_from_first)
  then have "month_sundays y 3 = filter (\<lambda>d. (w + 6 + d) mod 7 = 0) [1..<32]"
    by (simp add: month_sundays_def cal_month_days_def)
  with sundays_of_31_days w show ?thesis
    unfolding w_def [symmetric] by (simp only:)
qed

lemma first_sunday_of_november:
  "month_sundays y 11 ! 0 = 1 + (7 - cal_weekday y 11 1) mod 7"
proof -
  define w where "w = cal_weekday y 11 1"
  have "w < 7" by (simp add: w_def cal_weekday_def)
  then have w: "w \<in> set [0..<7]" by simp
  have "cal_weekday y 11 d = (w + 6 + d) mod 7" for d
    unfolding w_def by (rule cal_weekday_from_first)
  then have "month_sundays y 11 = filter (\<lambda>d. (w + 6 + d) mod 7 = 0) [1..<31]"
    by (simp add: month_sundays_def cal_month_days_def)
  with sundays_of_30_days w show ?thesis
    unfolding w_def [symmetric] by (simp only:)
qed

text \<open>The days that \<open>computeUSDST\<close> computes are those Sundays.\<close>

lemma sunday_offset:
  assumes "w < 7"
  shows "c_rem (7 - int w) 7 = int ((7 - w) mod 7)"
proof -
  from assms have e: "7 - int w = int (7 - w)" by simp
  have "c_rem (int (7 - w)) 7 = int (7 - w) mod int 7" by (simp add: c_rem_def)
  also have "\<dots> = int ((7 - w) mod 7)" by (simp only: zmod_int)
  finally show ?thesis by (simp only: e)
qed

lemma second_sunday:
  assumes "year \<noteq> 0"
  shows "1 + c_rem (7 - calculateDayOfWeek year 3 1) 7 + 7 = int (month_sundays (unat year) 3 ! 1)"
proof -
  define w where "w = cal_weekday (unat year) 3 1"
  have w: "w < 7" by (simp add: w_def cal_weekday_def)
  have ss: "month_sundays (unat year) 3 ! 1 = 1 + (7 - w) mod 7 + 7"
    unfolding w_def by (rule second_sunday_of_march)
  have dow: "calculateDayOfWeek year 3 1 = int w"
    using zeller_march [OF assms, of 1] by (simp add: w_def)
  have "1 + c_rem (7 - calculateDayOfWeek year 3 1) 7 + 7 = 1 + int ((7 - w) mod 7) + 7"
    by (simp only: dow sunday_offset [OF w])
  also have "\<dots> = int (1 + (7 - w) mod 7 + 7)" by simp
  finally show ?thesis by (simp only: ss)
qed

lemma first_sunday:
  assumes "year \<noteq> 0"
  shows "1 + c_rem (7 - calculateDayOfWeek year 11 1) 7 = int (month_sundays (unat year) 11 ! 0)"
proof -
  define w where "w = cal_weekday (unat year) 11 1"
  have w: "w < 7" by (simp add: w_def cal_weekday_def)
  have fs: "month_sundays (unat year) 11 ! 0 = 1 + (7 - w) mod 7"
    unfolding w_def by (rule first_sunday_of_november)
  have dow: "calculateDayOfWeek year 11 1 = int w"
    using zeller_november [OF assms, of 1] by (simp add: w_def)
  have "1 + c_rem (7 - calculateDayOfWeek year 11 1) 7 = 1 + int ((7 - w) mod 7)"
    by (simp only: dow sunday_offset [OF w])
  also have "\<dots> = int (1 + (7 - w) mod 7)" by simp
  finally show ?thesis by (simp only: fs)
qed

lemma sunday_is_sunday:
  "\<forall>w \<in> set [0..<7]. (w + 6 + (1 + (7 - w) mod 7 + 7)) mod 7 = 0 \<and> (w + 6 + (1 + (7 - w) mod 7)) mod 7 = (0 :: nat)"
  by code_simp

lemma sunday_weekday:
  "cal_weekday y m (1 + (7 - cal_weekday y m 1) mod 7 + 7) = 0"
  "cal_weekday y m (1 + (7 - cal_weekday y m 1) mod 7) = 0"
proof -
  define w where "w = cal_weekday y m 1"
  have "w < 7" by (simp add: w_def cal_weekday_def)
  then have w: "w \<in> set [0..<7]" by simp
  have "cal_weekday y m d = (w + 6 + d) mod 7" for d
    unfolding w_def by (rule cal_weekday_from_first)
  with sunday_is_sunday w
  show "cal_weekday y m (1 + (7 - cal_weekday y m 1) mod 7 + 7) = 0"
    and "cal_weekday y m (1 + (7 - cal_weekday y m 1) mod 7) = 0"
    unfolding w_def [symmetric] by (simp_all only:)
qed

lemma byte_as_nat:
  fixes w :: u8
  shows "int n < uint w \<longleftrightarrow> n < unat w" and "uint w < int n \<longleftrightarrow> unat w < n"
    and "uint w = int n \<longleftrightarrow> unat w = n" and "2 \<le> uint w \<longleftrightarrow> 2 \<le> unat w"
    and "uint w < 2 \<longleftrightarrow> unat w < 2"
proof -
  have u: "uint w = int (unat w)" by simp
  show "int n < uint w \<longleftrightarrow> n < unat w" by (simp only: u of_nat_less_iff)
  show "uint w < int n \<longleftrightarrow> unat w < n" by (simp only: u of_nat_less_iff)
  show "uint w = int n \<longleftrightarrow> unat w = n" by (simp only: u of_nat_eq_iff)
  have "2 \<le> int (unat w) \<longleftrightarrow> 2 \<le> unat w" by linarith
  then show "2 \<le> uint w \<longleftrightarrow> 2 \<le> unat w" by (simp only: u)
  have "int (unat w) < 2 \<longleftrightarrow> unat w < 2" by linarith
  then show "uint w < 2 \<longleftrightarrow> unat w < 2" by (simp only: u)
qed

lemma example_march_local:
  "fst (getLocalTime (- 5) False example_march_clock)
     = \<lparr>ct_year = 2025, ct_month = 3, ct_day = 9, ct_hour = 2, ct_minute = 0, ct_second = 0\<rparr>"
  by code_simp

lemma example_march_dow: "calculateDayOfWeek 2025 3 1 = 6"
  by code_simp

lemma example_november_local:
  "fst (getLocalTime (- 5) False example_november_clock)
     = \<lparr>ct_year = 2025, ct_month = 11, ct_day = 2, ct_hour = 1, ct_minute = 59, ct_second = 59\<rparr>"
  by code_simp

lemma example_november_dow: "calculateDayOfWeek 2025 11 1 = 6"
  by code_simp

text \<open>
  Claim C6: with the time set, \<open>computeUSDST\<close> decides on the local standard time (the
  UTC offset applied, DST not applied). It returns false in December, January and
  February and true in April to October. In March it returns true exactly from 02:00 on
  the second Sunday of the month on, and in November exactly before 02:00 on the first
  Sunday of the month, where the Sundays are those of the Gregorian calendar, counted in
  days independently of the code (\<open>month_sundays\<close>): the second Sunday of March is day
  \<open>1 + ((7 - w) mod 7) + 7\<close> and the first Sunday of November is day
  \<open>1 + ((7 - w) mod 7)\<close>, with \<open>w\<close> the calendar's weekday of the first of the month,
  which is what \<open>calculateDayOfWeek\<close> returns for it. The year of the local date is a
  year from 1 on. The call leaves the globals as they were.
\<close>

theorem computeUSDST_rule:
  assumes "timeSet (timeManager a)"
  shows "(let local = fst (getLocalTime (utcOffset a) False (timeManager a));
              dst = fst (computeUSDST a);
              y = unat (ct_year local);
              day = unat (ct_day local);
              hour = unat (ct_hour local)
          in (ct_month local = 12 \<or> ct_month local = 1 \<or> ct_month local = 2 \<longrightarrow> \<not> dst) \<and>
             (4 \<le> ct_month local \<and> ct_month local \<le> 10 \<longrightarrow> dst) \<and>
             (ct_month local = 3 \<and> ct_year local \<noteq> 0 \<longrightarrow>
                (let secondSunday = month_sundays y 3 ! 1
                 in (dst \<longleftrightarrow> secondSunday < day \<or> (day = secondSunday \<and> 2 \<le> hour)) \<and>
                    secondSunday = 1 + (7 - cal_weekday y 3 1) mod 7 + 7 \<and>
                    calculateDayOfWeek (ct_year local) 3 1 = int (cal_weekday y 3 1) \<and>
                    8 \<le> secondSunday \<and> secondSunday \<le> 14 \<and>
                    cal_weekday y 3 secondSunday = 0)) \<and>
             (ct_month local = 11 \<and> ct_year local \<noteq> 0 \<longrightarrow>
                (let firstSunday = month_sundays y 11 ! 0
                 in (dst \<longleftrightarrow> day < firstSunday \<or> (day = firstSunday \<and> hour < 2)) \<and>
                    firstSunday = 1 + (7 - cal_weekday y 11 1) mod 7 \<and>
                    calculateDayOfWeek (ct_year local) 11 1 = int (cal_weekday y 11 1) \<and>
                    1 \<le> firstSunday \<and> firstSunday \<le> 7 \<and>
                    cal_weekday y 11 firstSunday = 0)) \<and>
             snd (computeUSDST a) = a)"
proof -
  define local where "local = fst (getLocalTime (utcOffset a) False (timeManager a))"
  define y where "y = unat (ct_year local)"
  have keep: "snd (getLocalTime (utcOffset a) False (timeManager a)) = timeManager a"
    by (simp add: getLocalTime_def getUTCTime_def Let_def split_beta)
  have same: "a\<lparr>timeManager := timeManager a\<rparr> = a" by simp
  have frame: "snd (computeUSDST a) = a"
    using assms keep same
    by (simp add: computeUSDST_def isTimeSet_def Let_def split_beta)
  have winter: "\<not> fst (computeUSDST a)"
    if "ct_month local = 12 \<or> ct_month local = 1 \<or> ct_month local = 2"
    using assms that
    by (auto simp: computeUSDST_def isTimeSet_def Let_def split_beta local_def)
  have summer: "fst (computeUSDST a)" if "4 \<le> ct_month local \<and> ct_month local \<le> 10"
  proof -
    from that have "3 < ct_month local" and "ct_month local < 11" and "\<not> ct_month local < 3"
      and "\<not> 11 < ct_month local"
      by (simp_all add: word_le_nat_alt word_less_nat_alt)
    with assms show ?thesis
      by (simp add: computeUSDST_def isTimeSet_def Let_def split_beta local_def)
  qed
  have march: "fst (computeUSDST a)
      = (1 + c_rem (7 - calculateDayOfWeek (ct_year local) 3 1) 7 + 7 < uint (ct_day local) \<or>
         (uint (ct_day local) = 1 + c_rem (7 - calculateDayOfWeek (ct_year local) 3 1) 7 + 7 \<and>
          2 \<le> uint (ct_hour local)))"
    if "ct_month local = 3"
    using assms that
    by (simp add: computeUSDST_def isTimeSet_def Let_def split_beta local_def)
  have november: "fst (computeUSDST a)
      = (uint (ct_day local) < 1 + c_rem (7 - calculateDayOfWeek (ct_year local) 11 1) 7 \<or>
         (uint (ct_day local) = 1 + c_rem (7 - calculateDayOfWeek (ct_year local) 11 1) 7 \<and>
          uint (ct_hour local) < 2))"
    if "ct_month local = 11"
    using assms that
    by (simp add: computeUSDST_def isTimeSet_def Let_def split_beta local_def)
  have march_switch: "fst (computeUSDST a)
      = (month_sundays y 3 ! 1 < unat (ct_day local) \<or>
         (unat (ct_day local) = month_sundays y 3 ! 1 \<and> 2 \<le> unat (ct_hour local)))"
    if "ct_month local = 3" and "ct_year local \<noteq> 0"
    unfolding march [OF that(1)] second_sunday [OF that(2)] y_def byte_as_nat ..
  have november_switch: "fst (computeUSDST a)
      = (unat (ct_day local) < month_sundays y 11 ! 0 \<or>
         (unat (ct_day local) = month_sundays y 11 ! 0 \<and> unat (ct_hour local) < 2))"
    if "ct_month local = 11" and "ct_year local \<noteq> 0"
    unfolding november [OF that(1)] first_sunday [OF that(2)] y_def byte_as_nat ..
  have march_day: "month_sundays y 3 ! 1 = 1 + (7 - cal_weekday y 3 1) mod 7 + 7"
    by (rule second_sunday_of_march)
  have november_day: "month_sundays y 11 ! 0 = 1 + (7 - cal_weekday y 11 1) mod 7"
    by (rule first_sunday_of_november)
  have march_range: "8 \<le> month_sundays y 3 ! 1" "month_sundays y 3 ! 1 \<le> 14"
    unfolding march_day by simp_all
  have november_range: "1 \<le> month_sundays y 11 ! 0" "month_sundays y 11 ! 0 \<le> 7"
    unfolding november_day by simp_all
  have march_sunday: "cal_weekday y 3 (month_sundays y 3 ! 1) = 0"
    unfolding march_day by (rule sunday_weekday)
  have november_sunday: "cal_weekday y 11 (month_sundays y 11 ! 0) = 0"
    unfolding november_day by (rule sunday_weekday)
  have march_first: "calculateDayOfWeek (ct_year local) 3 1 = int (cal_weekday y 3 1)"
    if "ct_year local \<noteq> 0"
    using zeller_march [OF that, of 1] by (simp add: y_def)
  have november_first: "calculateDayOfWeek (ct_year local) 11 1 = int (cal_weekday y 11 1)"
    if "ct_year local \<noteq> 0"
    using zeller_november [OF that, of 1] by (simp add: y_def)
  show ?thesis
    unfolding Let_def local_def [symmetric] y_def [symmetric]
  proof (intro conjI impI)
    show "snd (computeUSDST a) = a" by (rule frame)
  qed (use winter summer march_switch november_switch march_day november_day march_range
         november_range march_sunday november_sunday march_first november_first
       in \<open>simp_all only: simp_thms\<close>)
qed

theorem computeUSDST_rule_witness:
  "timeSet (timeManager (example_app\<lparr>timeManager := example_march_clock\<rparr>)) \<and>
   ct_month (fst (getLocalTime (- 5) False example_march_clock)) = 3 \<and>
   ct_day (fst (getLocalTime (- 5) False example_march_clock)) = 9 \<and>
   ct_hour (fst (getLocalTime (- 5) False example_march_clock)) = 2 \<and>
   cal_weekday 2025 3 1 = 6 \<and>
   month_sundays 2025 3 ! 1 = 9 \<and>
   fst (computeUSDST (example_app\<lparr>timeManager := example_march_clock\<rparr>)) \<and>
   timeSet (timeManager (example_app\<lparr>timeManager := example_november_clock\<rparr>)) \<and>
   ct_month (fst (getLocalTime (- 5) False example_november_clock)) = 11 \<and>
   ct_day (fst (getLocalTime (- 5) False example_november_clock)) = 2 \<and>
   ct_hour (fst (getLocalTime (- 5) False example_november_clock)) = 1 \<and>
   cal_weekday 2025 11 1 = 6 \<and>
   month_sundays 2025 11 ! 0 = 2 \<and>
   fst (computeUSDST (example_app\<lparr>timeManager := example_november_clock\<rparr>))"
proof -
  let ?m = "example_app\<lparr>timeManager := example_march_clock\<rparr>"
  let ?n = "example_app\<lparr>timeManager := example_november_clock\<rparr>"
  have set_m: "timeSet (timeManager ?m)"
    by (simp add: example_march_clock_def setTime_def)
  have set_n: "timeSet (timeManager ?n)"
    by (simp add: example_november_clock_def setTime_def)
  have off: "utcOffset ?m = - 5" "utcOffset ?n = - 5" "timeManager ?m = example_march_clock"
    "timeManager ?n = example_november_clock"
    by (simp_all add: example_app_def)
  note m = computeUSDST_rule [OF set_m, unfolded Let_def off example_march_local]
  note n = computeUSDST_rule [OF set_n, unfolded Let_def off example_november_local]
  have wm: "cal_weekday 2025 3 1 = 6"
    using m example_march_dow by simp
  have wn: "cal_weekday 2025 11 1 = 6"
    using n example_november_dow by simp
  have sm: "month_sundays 2025 3 ! 1 = 9"
    using m wm by simp
  have sn: "month_sundays 2025 11 ! 0 = 2"
    using n wn by simp
  have dm: "fst (computeUSDST ?m)"
    using m sm by simp
  have dn: "fst (computeUSDST ?n)"
    using n sn by simp
  show ?thesis
    using set_m set_n wm wn sm sn dm dn
    by (simp add: example_march_local example_november_local)
qed

section \<open>Properties of the conversion to and from Unix time\<close>

lemma months_1_to_12: "[1..<13] = [1, 2, 3, 4, 5, 6, 7, 8, 9, 10, 11, 12 :: nat]"
  by code_simp

lemma days_from_13: "days_from year 13 = 0"
  by (simp add: days_from_def)

lemma days_from_step:
  "m < 13 \<Longrightarrow> days_from year m = unat (daysInMonth year (of_nat m)) + days_from year (Suc m)"
  by (simp add: days_from_def upt_conv_Cons)

lemma days_from_1: "86400 * days_from year 1 = unat (secondsInYear year)"
proof -
  have "days_from year 1
      = sum_list (map (\<lambda>k. unat (daysInMonth year (of_nat k)))
          [1, 2, 3, 4, 5, 6, 7, 8, 9, 10, 11, 12])"
    unfolding days_from_def months_1_to_12 ..
  also have "\<dots> = (if isLeapYear year then 366 else 365)"
    by (simp add: daysInMonth_def DAYS_IN_MONTH_def Let_def)
  finally show ?thesis
    by (simp add: secondsInYear_def)
qed

lemma daysInMonth_le_31: "unat (daysInMonth year month) \<le> 31"
proof -
  have all: "\<forall>x \<in> set DAYS_IN_MONTH. unat x \<le> 31"
    by (simp add: DAYS_IN_MONTH_def)
  show ?thesis
  proof (cases "month < 1 \<or> month > 12")
    case True
    then show ?thesis by (simp add: daysInMonth_def)
  next
    case False
    then have "unat month \<le> 12" and "1 \<le> unat month"
      by (simp_all add: not_less word_le_nat_alt unat_gt_0 Suc_le_eq)
    then have "unat month - 1 < length DAYS_IN_MONTH"
      by (simp add: DAYS_IN_MONTH_def)
    then have "DAYS_IN_MONTH ! (unat month - 1) \<in> set DAYS_IN_MONTH"
      by (rule nth_mem)
    with all have "unat (DAYS_IN_MONTH ! (unat month - 1)) \<le> 31" by blast
    with False show ?thesis by (simp add: daysInMonth_def Let_def)
  qed
qed

lemma unat_secondsInMonth:
  "unat (secondsInMonth year month) = 86400 * unat (daysInMonth year month)"
proof -
  have "unat (daysInMonth year month) * 86400 < 2 ^ 32"
    using daysInMonth_le_31 [of year month] by simp
  then show ?thesis
    by (simp add: secondsInMonth_def unat_word_ariths unat_ucast_8_32)
qed

lemma unat_secondsInYear_ge: "31536000 \<le> unat (secondsInYear year)"
  by (simp add: secondsInYear_def)


lemma add_years_done: "\<not> y < year \<Longrightarrow> add_years y year acc = acc"
  by (subst add_years.simps) simp

lemma add_years_step:
  "y < year \<Longrightarrow> add_years y year acc = add_years (y + 1) year (acc + secondsInYear y)"
  by (subst add_years.simps) simp

lemma add_months_done: "\<not> m < month \<Longrightarrow> add_months year m month acc = acc"
  by (subst add_months.simps) simp

lemma add_months_step:
  "m < month \<Longrightarrow>
   add_months year m month acc = add_months year (m + 1) month (acc + secondsInMonth year m)"
  by (subst add_months.simps) simp

lemma count_years_sum:
  "unat year + unat seconds div 31536000 < 65535 \<Longrightarrow>
   count_years seconds year = (s', y') \<Longrightarrow>
   year \<le> y' \<and> s' < secondsInYear y' \<and> add_years year y' acc + s' = acc + seconds"
proof (induction seconds year arbitrary: acc rule: count_years.induct)
  case (1 seconds year)
  show ?case
  proof (cases "seconds < secondsInYear year")
    case True
    with "1.prems"(2) have "s' = seconds" and "y' = year"
      by (simp_all add: count_years.simps [of seconds year])
    with True show ?thesis by (simp add: add_years_done)
  next
    case False
    then have le: "secondsInYear year \<le> seconds" by simp
    then have sub: "unat (seconds - secondsInYear year) = unat seconds - unat (secondsInYear year)"
      by (rule unat_sub)
    from le have le_nat: "unat (secondsInYear year) \<le> unat seconds"
      by (simp add: word_le_nat_alt)
    have big: "31536000 \<le> unat (secondsInYear year)" by (rule unat_secondsInYear_ge)
    have "unat seconds - unat (secondsInYear year) \<le> unat seconds - 31536000"
      using big by simp
    then have "(unat seconds - unat (secondsInYear year)) div 31536000
        \<le> (unat seconds - 31536000) div 31536000"
      by (rule div_le_mono)
    also have "(unat seconds - 31536000) div 31536000 = unat seconds div 31536000 - 1"
    proof -
      from big le_nat have "(31536000 :: nat) \<le> unat seconds" by simp
      then have "unat seconds div 31536000 = Suc ((unat seconds - 31536000) div 31536000)"
        by (intro le_div_geq) simp_all
      then show ?thesis by simp
    qed
    finally have less: "(unat seconds - unat (secondsInYear year)) div 31536000
        \<le> unat seconds div 31536000 - 1" .
    have pos: "1 \<le> unat seconds div 31536000"
    proof -
      from big le_nat have "31536000 \<le> unat seconds" by simp
      then have "31536000 div 31536000 \<le> unat seconds div (31536000 :: nat)"
        by (rule div_le_mono)
      then show ?thesis by simp
    qed
    have small: "unat year < 65535" using "1.prems"(1) by simp
    then have suc: "unat (year + 1) = unat year + 1"
      by (simp add: unat_word_ariths)
    have pre: "unat (year + 1) + unat (seconds - secondsInYear year) div 31536000 < 65535"
      using "1.prems"(1) less pos by (simp add: suc sub)
    have rec: "count_years (seconds - secondsInYear year) (year + 1) = (s', y')"
      using "1.prems"(2) False by (simp add: count_years.simps [of seconds year])
    note ih = "1.IH" [OF False pre rec, of "acc + secondsInYear year"]
    from ih have next_le: "year + 1 \<le> y'" by simp
    have "year < year + 1"
      using suc by (simp add: word_less_nat_alt)
    with next_le have lt: "year < y'" by simp
    from ih lt show ?thesis
      by (simp add: add_years_step)
  qed
qed


lemma count_months_sum:
  "month \<le> 13 \<Longrightarrow> unat seconds < 86400 * days_from year (unat month) \<Longrightarrow>
   count_months year seconds month = (s', m') \<Longrightarrow>
   month \<le> m' \<and> m' \<le> 12 \<and> s' < secondsInMonth year m' \<and>
   add_months year month m' acc + s' = acc + seconds"
proof (induction year seconds month arbitrary: acc rule: count_months.induct)
  case (1 year seconds month)
  show ?case
  proof (cases "month \<le> 12")
    case False
    with "1.prems"(1) have "unat month = unat (13 :: u8)"
      by (simp add: word_le_nat_alt)
    then have "month = 13" by (simp only: word_unat_eq_iff)
    with "1.prems"(2) show ?thesis by (simp add: days_from_13)
  next
    case True
    then have m12: "unat month \<le> 12" by (simp add: word_le_nat_alt)
    show ?thesis
    proof (cases "seconds < secondsInMonth year month")
      case True
      with \<open>month \<le> 12\<close> "1.prems"(3) have "s' = seconds" and "m' = month"
        by (simp_all add: count_months.simps [of year seconds month])
      with True \<open>month \<le> 12\<close> show ?thesis by (simp add: add_months_done)
    next
      case False
      then have le: "secondsInMonth year month \<le> seconds" by simp
      then have sub: "unat (seconds - secondsInMonth year month)
          = unat seconds - unat (secondsInMonth year month)"
        by (rule unat_sub)
      have suc: "unat (month + 1) = unat month + 1"
        using m12 by (simp add: unat_word_ariths)
      have step: "days_from year (unat month)
          = unat (daysInMonth year month) + days_from year (Suc (unat month))"
        using m12 days_from_step [of "unat month" year] by simp
      have inv: "unat (seconds - secondsInMonth year month)
          < 86400 * days_from year (unat (month + 1))"
        using "1.prems"(2) le
        by (simp add: sub suc step unat_secondsInMonth word_le_nat_alt)
      have next13: "month + 1 \<le> 13"
        using m12 suc by (simp add: word_le_nat_alt)
      have rec: "count_months year (seconds - secondsInMonth year month) (month + 1) = (s', m')"
        using "1.prems"(3) False \<open>month \<le> 12\<close>
        by (simp add: count_months.simps [of year seconds month])
      note ih = "1.IH" [OF \<open>month \<le> 12\<close> False next13 inv rec,
          of "acc + secondsInMonth year month"]
      have up: "month < month + 1"
        using suc by (simp add: word_less_nat_alt)
      from ih have "month + 1 \<le> m'" by simp
      with up have lt: "month < m'" by (rule less_le_trans)
      from ih lt show ?thesis
        by (simp add: add_months_step)
    qed
  qed
qed

lemma ucast_8_round:
  assumes "unat (w :: u32) < 256"
  shows "(ucast (ucast w :: u8) :: u32) = w"
proof -
  have "unat (ucast w :: u8) = unat w"
    using assms by (intro unat_ucast_small) simp
  then have "unat (ucast (ucast w :: u8) :: u32) = unat w"
    by (simp add: unat_ucast_8_32)
  then show ?thesis by (simp only: word_unat_eq_iff)
qed

lemma split_seconds:
  fixes s :: u32
  assumes "unat s < 31 * 86400"
  shows "(ucast (ucast (1 + s div 86400) :: u8) - 1) * 86400
         + ucast (ucast (s mod 86400 div 3600) :: u8) * 3600
         + ucast (ucast (s mod 86400 mod 3600 div 60) :: u8) * 60
         + ucast (ucast (s mod 86400 mod 3600 mod 60) :: u8) = s"
proof -
  have q: "unat (s div 86400) < 31"
    using assms by (simp add: unat_div)
  then have "unat (1 + s div 86400) = 1 + unat (s div 86400)"
    by (simp add: unat_word_ariths)
  with q have "unat (1 + s div 86400) < 256" by simp
  then have d: "(ucast (ucast (1 + s div 86400) :: u8) :: u32) = 1 + s div 86400"
    by (rule ucast_8_round)
  have "unat (s mod 86400 div 3600) < 256"
    by (simp add: unat_div unat_mod)
  then have h: "(ucast (ucast (s mod 86400 div 3600) :: u8) :: u32) = s mod 86400 div 3600"
    by (rule ucast_8_round)
  have "unat (s mod 86400 mod 3600 div 60) < 256"
    by (simp add: unat_div unat_mod)
  then have m: "(ucast (ucast (s mod 86400 mod 3600 div 60) :: u8) :: u32)
      = s mod 86400 mod 3600 div 60"
    by (rule ucast_8_round)
  have "unat (s mod 86400 mod 3600 mod 60) < 60"
    by (simp add: unat_mod)
  then have "unat (s mod 86400 mod 3600 mod 60) < 256" by simp
  then have c: "(ucast (ucast (s mod 86400 mod 3600 mod 60) :: u8) :: u32)
      = s mod 86400 mod 3600 mod 60"
    by (rule ucast_8_round)
  have "s div 86400 * 86400 + (s mod 86400 div 3600 * 3600
      + (s mod 86400 mod 3600 div 60 * 60 + s mod 86400 mod 3600 mod 60)) = s"
    by (simp only: div_mult_mod_eq)
  then show ?thesis
    by (simp only: d h m c add_diff_cancel_left' add.assoc)
qed

text \<open>
  Claim C2: for every Unix timestamp \<open>t\<close> in the supported range from 1970 to 2099,
  \<open>setUnixTime(t)\<close> followed by \<open>getUnixTime()\<close> returns \<open>t\<close>. The law holds for
  every 32-bit timestamp, whatever the state before and the counter value read.
\<close>

theorem unix_time_round_trip:
  "fst (getUnixTime (setUnixTime now t s)) = t"
proof -
  obtain s1 y where cy: "count_years t 1970 = (s1, y)"
    by (cases "count_years t 1970")
  obtain s2 m where cm: "count_months y s1 1 = (s2, m)"
    by (cases "count_months y s1 1")
  have "unat t < 2 ^ LENGTH(32)" by (rule unsigned_less)
  then have "unat t div 31536000 \<le> 4294967295 div 31536000"
    by (intro div_le_mono) simp
  then have pre: "unat (1970 :: u16) + unat t div 31536000 < 65535" by simp
  note years = count_years_sum [OF pre cy, of 0]
  from years have "unat s1 < unat (secondsInYear y)"
    by (simp add: word_less_nat_alt)
  moreover have "unat (1 :: u8) = 1" by simp
  ultimately have inv: "unat s1 < 86400 * days_from y (unat (1 :: u8))"
    by (simp only: days_from_1)
  have "(1 :: u8) \<le> 13" by simp
  note months = count_months_sum [OF this inv cm, of "add_years 1970 y 0"]
  from months have "unat s2 < unat (secondsInMonth y m)"
    by (simp add: word_less_nat_alt)
  with daysInMonth_le_31 [of y m] have "unat s2 < 31 * 86400"
    by (simp add: unat_secondsInMonth)
  note rest = split_seconds [OF this]
  have "fst (getUnixTime (setUnixTime now t s))
      = add_months y 1 m (add_years 1970 y 0)
        + ((ucast (ucast (1 + s2 div 86400) :: u8) - 1) * 86400
           + ucast (ucast (s2 mod 86400 div 3600) :: u8) * 3600
           + ucast (ucast (s2 mod 86400 mod 3600 div 60) :: u8) * 60
           + ucast (ucast (s2 mod 86400 mod 3600 mod 60) :: u8))"
    by (simp add: getUnixTime_def setUnixTime_def setTime_def cy cm Let_def add.assoc)
  also have "\<dots> = add_months y 1 m (add_years 1970 y 0) + s2"
    by (simp only: rest)
  also have "\<dots> = add_years 1970 y 0 + s1"
    using months by simp
  also have "\<dots> = t"
    using years by simp
  finally show ?thesis .
qed

theorem unix_time_round_trip_witness:
  "fst (getUnixTime (setUnixTime 0 1750006800 TimeManager_new)) = 1750006800"
  by (rule unix_time_round_trip)

end
